theory Spec2Isabelle
  imports Complex_Main "HOL-Library.Signed_Division"
begin

section \<open>Floating-point scores and machine integers\<close>

text \<open>
  The score type of the bucket queue is the template parameter \<^verbatim>\<open>ScoreType\<close>, in use
  \<^verbatim>\<open>float\<close> or \<^verbatim>\<open>double\<close>. A value of such a type is modelled by the real number
  it represents, and an arithmetic operation returns the exact result rounded to the
  nearest representable number, ties to the even significand (IEEE 754 with the default
  rounding mode, every expression evaluated in the format of its type). A binary format
  is given by the number of bits of its significand and by the exponent of its smallest
  normal number; below that exponent the numbers are equally spaced (subnormals).
  Infinities and NaN are not values of the model: a product beyond the largest finite
  number lies far outside the range of \<^verbatim>\<open>int\<close>, where the conversion that follows is
  undefined in any case.
\<close>

record ScoreType =
  precision :: nat
  emin :: int

definition binary32 :: ScoreType where
  "binary32 = \<lparr>precision = 24, emin = - 126\<rparr>"

definition binary64 :: ScoreType where
  "binary64 = \<lparr>precision = 53, emin = - 1022\<rparr>"

text \<open>Rounding a real number to the nearest integer, a tie to the even one.\<close>

definition rne :: "real \<Rightarrow> int" where
  "rne x = (let f = \<lfloor>x\<rfloor>; d = x - real_of_int f in
            if d < 1/2 then f else if 1/2 < d then f + 1 else if even f then f else f + 1)"

lemma half_floor_less:
  fixes y :: real
  assumes "2 \<le> y"
  shows "\<lfloor>y / 2\<rfloor> < \<lfloor>y\<rfloor>"
proof -
  have "y / 2 \<le> y - 1" using assms by simp
  then have "\<lfloor>y / 2\<rfloor> \<le> \<lfloor>y - 1\<rfloor>" by (rule floor_mono)
  then show ?thesis by simp
qed

text \<open>The binary exponent of a positive number: \<open>2 ^ ilog2 x \<le> x < 2 ^ (ilog2 x + 1)\<close>.\<close>

function ilog2 :: "real \<Rightarrow> int" where
  "ilog2 x = (if x \<le> 0 then 0 else if 2 \<le> x then ilog2 (x / 2) + 1
              else if x < 1 then ilog2 (x * 2) - 1 else 0)"
  by pat_completeness auto
termination
proof (relation "measure (\<lambda>x. if 1 \<le> x then nat \<lfloor>x\<rfloor> else nat \<lfloor>1 / x\<rfloor> + 1)", goal_cases)
  case 1
  show ?case by simp
next
  case (2 x)
  then have "\<lfloor>x / 2\<rfloor> < \<lfloor>x\<rfloor>" "0 \<le> \<lfloor>x / 2\<rfloor>" using half_floor_less[of x] by auto
  with 2 show ?case by auto
next
  case (3 x)
  then have x: "0 < x" "x < 1" by auto
  show ?case
  proof (cases "1 \<le> x * 2")
    case True
    then have "\<lfloor>x * 2\<rfloor> = 1" using x by (simp add: floor_eq_iff)
    moreover have "1 \<le> \<lfloor>1 / x\<rfloor>" using x by (simp add: le_floor_iff)
    ultimately show ?thesis using x True by auto
  next
    case False
    then have "2 \<le> 1 / x" using x by (simp add: field_simps)
    from half_floor_less[OF this] have "\<lfloor>1 / (x * 2)\<rfloor> < \<lfloor>1 / x\<rfloor>" by (simp add: field_simps)
    moreover have "0 \<le> \<lfloor>1 / (x * 2)\<rfloor>" using x by simp
    ultimately show ?thesis using x False by auto
  qed
qed

declare ilog2.simps [simp del]

text \<open>The spacing of the format around \<open>x\<close> (the unit in the last place), and the rounding
  of a real number to the format.\<close>

definition ulp :: "ScoreType \<Rightarrow> real \<Rightarrow> real" where
  "ulp T x = 2 powi (max (ilog2 \<bar>x\<bar>) (emin T) - int (precision T) + 1)"

definition fl :: "ScoreType \<Rightarrow> real \<Rightarrow> real" where
  "fl T x = sgn x * (real_of_int (rne (\<bar>x\<bar> / ulp T x)) * ulp T x)"

text \<open>
  \<^verbatim>\<open>int\<close> is 32 bits wide. The conversion \<^verbatim>\<open>(int)x\<close> of a floating-point value discards
  the fractional part, that is, it rounds towards zero; when the result is not a value of
  \<^verbatim>\<open>int\<close> the behaviour is undefined, which the model reports as \<open>None\<close>.
\<close>

definition int_cast :: "real \<Rightarrow> int option" where
  "int_cast x =
     (let i = (if 0 \<le> x then \<lfloor>x\<rfloor> else \<lceil>x\<rceil>) in
      if - (2 ^ 31) \<le> i \<and> i < 2 ^ 31 then Some i else None)"

text \<open>
  An overflow of \<^verbatim>\<open>int\<close> arithmetic is undefined in C++ as well; there the model takes
  the two's complement result that the compilers in use produce, the exact result
  reduced modulo \<open>2 ^ 32\<close> into \<open>[-2 ^ 31, 2 ^ 31)\<close>.
\<close>

definition wrap32 :: "int \<Rightarrow> int" where
  "wrap32 x = (x + 2 ^ 31) mod 2 ^ 32 - 2 ^ 31"

subsection \<open>Properties of the rounding\<close>

lemma ilog2_spec:
  "0 < x \<Longrightarrow> 2 powi ilog2 x \<le> x \<and> x < 2 powi (ilog2 x + 1)"
proof (induction x rule: ilog2.induct)
  case (1 x)
  show ?case
  proof (cases "2 \<le> x")
    case True
    then have e: "ilog2 x = ilog2 (x / 2) + 1" by (subst ilog2.simps) simp
    from 1(1)[OF _ True] 1(3) have "2 powi ilog2 (x / 2) \<le> x / 2 \<and> x / 2 < 2 powi (ilog2 (x / 2) + 1)"
      by simp
    then show ?thesis unfolding e by (simp add: power_int_add field_simps)
  next
    case False
    show ?thesis
    proof (cases "x < 1")
      case True
      then have e: "ilog2 x = ilog2 (x * 2) - 1" using 1(3) False by (subst ilog2.simps) simp
      from 1(2)[OF _ False True] 1(3)
      have "2 powi ilog2 (x * 2) \<le> x * 2 \<and> x * 2 < 2 powi (ilog2 (x * 2) + 1)" by simp
      then show ?thesis unfolding e by (simp add: power_int_add power_int_diff field_simps)
    next
      case False
      with \<open>\<not> 2 \<le> x\<close> 1(3) have "ilog2 x = 0" by (subst ilog2.simps) simp
      with False \<open>\<not> 2 \<le> x\<close> show ?thesis by simp
    qed
  qed
qed


lemma powi2_less_iff: "(2::real) powi m < 2 powi n \<longleftrightarrow> m < n"
proof
  assume a: "(2::real) powi m < 2 powi n"
  show "m < n"
  proof (rule ccontr)
    assume "\<not> m < n"
    then have "(2::real) powi n \<le> 2 powi m" by (intro power_int_increasing) simp_all
    with a show False by simp
  qed
next
  assume "m < n"
  then show "(2::real) powi m < 2 powi n" by (intro power_int_strict_increasing) simp_all
qed

lemma powi2_le_iff: "(2::real) powi m \<le> 2 powi n \<longleftrightarrow> m \<le> n"
  using powi2_less_iff[of n m] by (simp add: not_less[symmetric])

lemma ilog2_mono:
  assumes "0 < x" "x \<le> y"
  shows "ilog2 x \<le> ilog2 y"
proof -
  from ilog2_spec[of x] ilog2_spec[of y] assms
  have "(2::real) powi ilog2 x < 2 powi (ilog2 y + 1)" by simp
  then have "ilog2 x < ilog2 y + 1" by (simp only: powi2_less_iff)
  then show ?thesis by simp
qed

lemma rne_of_int: "rne (real_of_int k) = k"
  by (simp add: rne_def)

lemma rne_mono:
  assumes "x \<le> y"
  shows "rne x \<le> rne y"
proof -
  have f: "\<lfloor>x\<rfloor> \<le> \<lfloor>y\<rfloor>" using assms by (rule floor_mono)
  have ux: "rne x \<le> \<lfloor>x\<rfloor> + 1" and ly: "\<lfloor>y\<rfloor> \<le> rne y"
    by (simp_all add: rne_def Let_def)
  show ?thesis
  proof (cases "\<lfloor>x\<rfloor> = \<lfloor>y\<rfloor>")
    case True
    then show ?thesis using assms by (simp add: rne_def Let_def)
  next
    case False
    with f ux ly show ?thesis by simp
  qed
qed

lemma rne_le_int: "x \<le> real_of_int k \<Longrightarrow> rne x \<le> k"
  using rne_mono[of x "real_of_int k"] by (simp add: rne_of_int)

lemma int_le_rne: "real_of_int k \<le> x \<Longrightarrow> k \<le> rne x"
  using rne_mono[of "real_of_int k" x] by (simp add: rne_of_int)

lemma ulp_pos: "0 < ulp T x"
  by (simp add: ulp_def)

lemma fl_minus: "fl T (- x) = - fl T x"
  by (simp add: fl_def ulp_def)

lemma fl_zero: "fl T 0 = 0"
  by (simp add: fl_def)

lemma fl_nonneg:
  assumes "0 \<le> x"
  shows "0 \<le> fl T x"
proof -
  have "0 \<le> \<bar>x\<bar> / ulp T x" using ulp_pos[of T x] by simp
  then have "0 \<le> rne (\<bar>x\<bar> / ulp T x)" using int_le_rne[of 0] by simp
  then show ?thesis using assms ulp_pos[of T x] by (simp add: fl_def sgn_real_def)
qed

lemma fl_pos: "0 < x \<Longrightarrow> fl T x = real_of_int (rne (x / ulp T x)) * ulp T x"
  by (simp add: fl_def)

lemma fl_upper:
  assumes "0 < x"
  shows "fl T x \<le> 2 powi (max (ilog2 x) (emin T) + 1)"
proof -
  define e where "e = max (ilog2 x) (emin T)"
  define p where "p = precision T"
  have u: "ulp T x = 2 powi (e - int p + 1)" using assms by (simp add: ulp_def e_def p_def)
  have pu: "2 ^ p * ulp T x = 2 powi (e + 1)"
  proof -
    have "(2::real) powi (int p) * 2 powi (e - int p + 1) = 2 powi (int p + (e - int p + 1))"
      by (rule power_int_add[symmetric]) simp
    then show ?thesis by (simp add: u)
  qed
  have "x < 2 powi (ilog2 x + 1)" using ilog2_spec[OF assms] by simp
  also have "\<dots> \<le> 2 powi (e + 1)" by (rule power_int_increasing) (simp_all add: e_def)
  finally have "x / ulp T x \<le> 2 ^ p" using ulp_pos[of T x] pu by (simp add: field_simps)
  then have "x / ulp T x \<le> real_of_int (2 ^ p)" by simp
  then have "rne (x / ulp T x) \<le> 2 ^ p" by (rule rne_le_int)
  then have "real_of_int (rne (x / ulp T x)) \<le> 2 ^ p" by (metis of_int_le_iff of_int_numeral of_int_power)
  then have "real_of_int (rne (x / ulp T x)) * ulp T x \<le> 2 ^ p * ulp T x"
    using ulp_pos[of T x] by simp
  then show ?thesis using assms pu by (simp add: fl_pos e_def)
qed

lemma fl_lower:
  assumes "0 < x" and "emin T \<le> ilog2 x" and "1 \<le> precision T"
  shows "2 powi ilog2 x \<le> fl T x"
proof -
  define e where "e = ilog2 x"
  from assms(3) obtain p where p: "precision T = Suc p" by (cases "precision T") simp_all
  have u: "ulp T x = 2 powi (e - int p)" using assms by (simp add: ulp_def e_def p max_def)
  have pu: "2 ^ p * ulp T x = 2 powi e"
  proof -
    have "(2::real) powi (int p) * 2 powi (e - int p) = 2 powi (int p + (e - int p))"
      by (rule power_int_add[symmetric]) simp
    then show ?thesis by (simp add: u)
  qed
  have "2 powi e \<le> x" using ilog2_spec[OF assms(1)] by (simp add: e_def)
  then have "2 ^ p \<le> x / ulp T x" using ulp_pos[of T x] pu by (simp add: field_simps)
  then have "real_of_int (2 ^ p) \<le> x / ulp T x" by simp
  then have "2 ^ p \<le> rne (x / ulp T x)" by (rule int_le_rne)
  then have "2 ^ p \<le> real_of_int (rne (x / ulp T x))" by (metis of_int_le_iff of_int_numeral of_int_power)
  then have "2 ^ p * ulp T x \<le> real_of_int (rne (x / ulp T x)) * ulp T x"
    using ulp_pos[of T x] by simp
  then show ?thesis using assms pu by (simp add: fl_pos e_def)
qed

lemma fl_pos_mono:
  assumes "0 < x" and "x \<le> y" and "1 \<le> precision T"
  shows "fl T x \<le> fl T y"
proof -
  have y: "0 < y" using assms by simp
  define ex where "ex = max (ilog2 x) (emin T)"
  define ey where "ey = max (ilog2 y) (emin T)"
  have le: "ex \<le> ey" using ilog2_mono[OF assms(1,2)] by (simp add: ex_def ey_def)
  show ?thesis
  proof (cases "ex = ey")
    case True
    then have u: "ulp T x = ulp T y" using assms(1) y by (simp add: ulp_def ex_def ey_def)
    have "x / ulp T y \<le> y / ulp T y" using assms(2) ulp_pos[of T y] by (simp add: divide_right_mono)
    then have "rne (x / ulp T y) \<le> rne (y / ulp T y)" by (rule rne_mono)
    then have "real_of_int (rne (x / ulp T y)) * ulp T y \<le> real_of_int (rne (y / ulp T y)) * ulp T y"
      using ulp_pos[of T y] by simp
    then show ?thesis using assms(1) y u by (simp add: fl_pos)
  next
    case False
    with le have lt: "ex + 1 \<le> ey" by simp
    then have n: "emin T \<le> ilog2 y" "ey = ilog2 y" by (auto simp: ex_def ey_def max_def split: if_splits)
    have "fl T x \<le> 2 powi (ex + 1)" using fl_upper[OF assms(1)] by (simp add: ex_def)
    also have "\<dots> \<le> 2 powi ey" by (rule power_int_increasing) (use lt in simp_all)
    also have "\<dots> \<le> fl T y" using fl_lower[OF y n(1) assms(3)] n(2) by simp
    finally show ?thesis .
  qed
qed

lemma fl_mono:
  assumes "x \<le> y" and "1 \<le> precision T"
  shows "fl T x \<le> fl T y"
proof -
  consider "0 < x" | "x \<le> 0" "0 \<le> y" | "y < 0" by linarith
  then show ?thesis
  proof cases
    case 1
    then show ?thesis using assms by (rule fl_pos_mono)
  next
    case 2
    have "0 \<le> fl T (- x)" using 2 by (intro fl_nonneg) simp
    then have "fl T x \<le> 0" by (simp add: fl_minus)
    also have "0 \<le> fl T y" using 2 by (intro fl_nonneg)
    finally show ?thesis .
  next
    case 3
    have "fl T (- y) \<le> fl T (- x)" using 3 assms by (intro fl_pos_mono) simp_all
    then show ?thesis by (simp add: fl_minus)
  qed
qed

text \<open>Integers of magnitude up to 2^p are representable.\<close>

lemma fl_nat:
  assumes "k \<le> 2 ^ precision T" and "1 \<le> precision T" and "emin T \<le> 0"
  shows "fl T (real k) = real k"
proof (cases "k = 0")
  case True
  then show ?thesis by (simp add: fl_zero)
next
  case False
  define p where "p = precision T"
  define x where "x = real k"
  have x: "0 < x" "1 \<le> x" "x \<le> 2 ^ p" using False assms(1)
    by (simp_all add: x_def p_def)
  define e where "e = ilog2 x"
  have e0: "0 \<le> e"
  proof -
    have "(2::real) powi 0 < 2 powi (e + 1)" using ilog2_spec[OF x(1)] x(2) by (simp add: e_def)
    then have "0 < e + 1" by (simp only: powi2_less_iff)
    then show ?thesis by simp
  qed
  have ep: "e \<le> int p"
  proof -
    have "(2::real) powi e \<le> 2 powi int p" using ilog2_spec[OF x(1)] x(3) by (simp add: e_def)
    then show ?thesis by (simp only: powi2_le_iff)
  qed
  have "max e (emin T) = e" using e0 assms(3) by simp
  then have u: "ulp T x = 2 powi (e - int p + 1)"
    using x(1) by (simp add: ulp_def e_def p_def)
  have "\<exists>m::int. x / ulp T x = real_of_int m"
  proof (cases "e = int p")
    case True
    then have "(2::real) ^ p \<le> x" using ilog2_spec[OF x(1)] by (simp add: e_def)
    with x(3) have xe: "x = 2 ^ p" by simp
    have "ulp T x = 2" using u True by simp
    then have "x / ulp T x = real_of_int (2 ^ (p - 1))"
      using xe assms(2) by (cases p) (simp_all add: p_def)
    then show ?thesis ..
  next
    case False
    with ep have "0 \<le> int p - 1 - e" by simp
    then obtain j where j: "int p - 1 - e = int j" using nonneg_int_cases by blast
    have "ulp T x * 2 powi (int j) = 2 powi ((e - int p + 1) + int j)"
      unfolding u by (rule power_int_add[symmetric]) simp
    moreover have "(e - int p + 1) + int j = 0" using j by simp
    ultimately have "ulp T x * 2 ^ j = 1" by simp
    then have "x / ulp T x = x * 2 ^ j" using ulp_pos[of T x] by (simp add: field_simps)
    also have "\<dots> = real_of_int (int k * 2 ^ j)" by (simp add: x_def)
    finally show ?thesis ..
  qed
  then obtain m :: int where m: "x / ulp T x = real_of_int m" ..
  then have "rne (x / ulp T x) = m" by (simp add: rne_of_int)
  with m have "real_of_int (rne (x / ulp T x)) * ulp T x = x"
    using ulp_pos[of T x] by (simp add: field_simps)
  then show ?thesis using x(1) by (simp add: fl_pos x_def)
qed

lemma fl_int:
  assumes "0 \<le> k" and "k \<le> 2 ^ precision T" and "1 \<le> precision T" and "emin T \<le> 0"
  shows "fl T (real_of_int k) = real_of_int k"
proof -
  have "nat k \<le> 2 ^ precision T"
    using assms(1,2) by (simp add: nat_le_iff)
  from fl_nat[OF this assms(3,4)] assms(1) show ?thesis by simp
qed

lemma wrap32_id: "- (2 ^ 31) \<le> x \<Longrightarrow> x < 2 ^ 31 \<Longrightarrow> wrap32 x = x"
  by (simp add: wrap32_def)

section \<open>Bucket priority queue (BinQueue.hpp)\<close>

text \<open>
  \<^verbatim>\<open>BinQueue<T, ScoreType, N>\<close> keeps \<open>N\<close> FIFO buckets \<^verbatim>\<open>std::queue<T> _bins[N]\<close> and
  the cached index \<^verbatim>\<open>int _minBin\<close> of the smallest non-empty bucket (\<open>-1\<close> when the
  queue is empty). The template constant \<open>N\<close> is the length of the bucket array, fixed
  by the constructor; the template parameter \<^verbatim>\<open>ScoreType\<close> is an argument of the
  operations that compute with scores.
\<close>

datatype bq_error = BinQueueOutOfBoundsException int int | UndefinedBehaviour

record 'a BinQueue =
  bins :: "'a list list"
  minBin :: int

text \<open>The constructor: \<open>N\<close> empty buckets, \<^verbatim>\<open>_minBin(-1)\<close>.\<close>

definition BinQueue_init :: "int \<Rightarrow> 'a BinQueue" where
  "BinQueue_init n = \<lparr>bins = replicate (nat n) [], minBin = - 1\<rparr>"

definition N :: "'a BinQueue \<Rightarrow> int" where
  "N q = int (length (bins q))"

text \<open>\<^verbatim>\<open>int i = (int)(score*(N-1))\<close>: the \<^verbatim>\<open>int\<close> \<open>N-1\<close> is converted to \<^verbatim>\<open>ScoreType\<close>,
  the product is rounded to \<^verbatim>\<open>ScoreType\<close>, and the rounded product is converted to
  \<^verbatim>\<open>int\<close>.\<close>

definition scoreToIndex :: "ScoreType \<Rightarrow> int \<Rightarrow> real \<Rightarrow> bq_error + int" where
  "scoreToIndex T n score =
     (case int_cast (fl T (score * fl T (real_of_int (n - 1)))) of
        None \<Rightarrow> Inl UndefinedBehaviour
      | Some i \<Rightarrow> if i < 0 \<or> i \<ge> n then Inl (BinQueueOutOfBoundsException i n) else Inr i)"

definition push :: "ScoreType \<Rightarrow> 'a \<Rightarrow> real \<Rightarrow> 'a BinQueue \<Rightarrow> bq_error + 'a BinQueue" where
  "push T element score q =
     (case scoreToIndex T (N q) score of
        Inl err \<Rightarrow> Inl err
      | Inr i \<Rightarrow>
          Inr \<lparr>bins = (bins q)[nat i := bins q ! nat i @ [element]],
               minBin = (if minBin q = - 1 then i else min i (minBin q))\<rparr>)"

text \<open>\<^verbatim>\<open>top\<close> and \<^verbatim>\<open>pop\<close> index \<^verbatim>\<open>_bins[_minBin]\<close> without a check; reading outside the
  array or the front of an empty \<^verbatim>\<open>std::queue\<close> is undefined behaviour, which the model
  reports as \<open>None\<close>.\<close>

definition top_bq :: "'a BinQueue \<Rightarrow> 'a option" where
  "top_bq q =
     (let m = minBin q in
      if m < 0 \<or> N q \<le> m then None
      else (case bins q ! nat m of [] \<Rightarrow> None | x # _ \<Rightarrow> Some x))"

text \<open>The scan of \<^verbatim>\<open>pop\<close>:
  \<^verbatim>\<open>for (;_minBin < N; _minBin++) if (!_bins[_minBin].empty()) return; _minBin = -1;\<close>\<close>

function findNext :: "int \<Rightarrow> 'a list list \<Rightarrow> int \<Rightarrow> int" where
  "findNext n bs m =
     (if m < n then (if bs ! nat m \<noteq> [] then m else findNext n bs (m + 1)) else - 1)"
  by pat_completeness auto
termination
  by (relation "measure (\<lambda>(n, bs, m). nat (n - m))") auto

declare findNext.simps [simp del]

definition pop :: "'a BinQueue \<Rightarrow> 'a BinQueue option" where
  "pop q =
     (let m = minBin q in
      if m < 0 \<or> N q \<le> m then None
      else (case bins q ! nat m of
              [] \<Rightarrow> None
            | x # rest \<Rightarrow>
                let bs = (bins q)[nat m := rest] in
                if bs ! nat m = [] then Some \<lparr>bins = bs, minBin = findNext (N q) bs m\<rparr>
                else Some \<lparr>bins = bs, minBin = m\<rparr>))"

definition empty_bq :: "'a BinQueue \<Rightarrow> bool" where
  "empty_bq q = (minBin q = - 1)"

text \<open>A client that pushes a list of (element, score) pairs, stopping at the first
  exception, and a client that empties the queue:
  \<^verbatim>\<open>while (!q.empty()) { out.push_back(q.top()); q.pop(); }\<close>\<close>

fun push_all :: "ScoreType \<Rightarrow> ('a \<times> real) list \<Rightarrow> 'a BinQueue \<Rightarrow> bq_error + 'a BinQueue" where
  "push_all T [] q = Inr q"
| "push_all T ((x, s) # ps) q =
     (case push T x s q of Inl err \<Rightarrow> Inl err | Inr q' \<Rightarrow> push_all T ps q')"

definition stored :: "'a BinQueue \<Rightarrow> nat" where
  "stored q = sum_list (map length (bins q))"

lemma pop_stored:
  assumes "pop q = Some q'"
  shows "stored q' < stored q"
proof -
  let ?m = "nat (minBin q)"
  from assms obtain x rest where
    m: "0 \<le> minBin q" "minBin q < N q" and b: "bins q ! ?m = x # rest"
    and q': "bins q' = (bins q)[?m := rest]"
    by (auto simp: pop_def Let_def split: if_splits list.splits)
  from m have lt: "?m < length (bins q)" by (simp add: N_def)
  have "sum_list (map length ((bins q)[?m := rest]))
        = sum_list ((map length (bins q))[?m := length rest])"
    by (simp add: map_update)
  also have "\<dots> = sum_list (map length (bins q)) + length rest - length (bins q ! ?m)"
    using lt by (simp add: sum_list_update)
  finally have "stored q' + 1 = stored q"
    using lt b q' elem_le_sum_list[of ?m "map length (bins q)"]
    by (simp add: stored_def)
  then show ?thesis by simp
qed

function pop_all :: "'a BinQueue \<Rightarrow> 'a list option" where
  "pop_all q =
     (if empty_bq q then Some []
      else (case top_bq q of
              None \<Rightarrow> None
            | Some x \<Rightarrow>
                (case pop q of
                   None \<Rightarrow> None
                 | Some q' \<Rightarrow> map_option ((#) x) (pop_all q'))))"
  by pat_completeness auto
termination
  by (relation "measure stored") (auto simp: pop_stored)

declare pop_all.simps [simp del]

text \<open>The bucket of a score that \<^verbatim>\<open>push\<close> accepts: the index that \<^verbatim>\<open>scoreToIndex\<close>
  returns for it.\<close>

definition bucket :: "ScoreType \<Rightarrow> int \<Rightarrow> real \<Rightarrow> nat" where
  "bucket T n score = (case scoreToIndex T n score of Inl err \<Rightarrow> 0 | Inr i \<Rightarrow> nat i)"



subsection \<open>Properties of the bucket queue\<close>

text \<open>For a score in \<open>[0,1]\<close> the rounded product lies in \<open>[0, N-1]\<close>: the rounding is
  monotone and the integers \<open>0\<close> and \<open>N-1\<close> are representable.\<close>

lemma product_range:
  assumes "1 \<le> precision T" "emin T \<le> 0" "1 \<le> n" "n \<le> 2 ^ precision T"
    and "0 \<le> score" "score \<le> 1"
  shows "0 \<le> fl T (score * fl T (real_of_int (n - 1)))"
    and "fl T (score * fl T (real_of_int (n - 1))) \<le> real_of_int (n - 1)"
proof -
  have c: "fl T (real_of_int (n - 1)) = real_of_int (n - 1)"
    using assms(1-4) by (intro fl_int) simp_all
  have c0: "0 \<le> real_of_int (n - 1)" using assms(3) by simp
  have x0: "0 \<le> score * real_of_int (n - 1)" using assms(5) c0 by (rule mult_nonneg_nonneg)
  have "score * real_of_int (n - 1) \<le> 1 * real_of_int (n - 1)"
    using assms(6) c0 by (rule mult_right_mono)
  then have x1: "score * real_of_int (n - 1) \<le> real_of_int (n - 1)" by (simp only: mult_1)
  show "0 \<le> fl T (score * fl T (real_of_int (n - 1)))"
    unfolding c using x0 by (rule fl_nonneg)
  have "fl T (score * real_of_int (n - 1)) \<le> fl T (real_of_int (n - 1))"
    using x1 assms(1) by (rule fl_mono)
  then show "fl T (score * fl T (real_of_int (n - 1))) \<le> real_of_int (n - 1)"
    by (simp only: c)
qed

lemma scoreToIndex_unit:
  assumes "1 \<le> precision T" "emin T \<le> 0" "1 \<le> n" "n \<le> 2 ^ precision T" "n < 2 ^ 31"
    and "0 \<le> score" "score \<le> 1"
  shows "scoreToIndex T n score = Inr \<lfloor>fl T (score * fl T (real_of_int (n - 1)))\<rfloor>"
    and "0 \<le> \<lfloor>fl T (score * fl T (real_of_int (n - 1)))\<rfloor>"
    and "\<lfloor>fl T (score * fl T (real_of_int (n - 1)))\<rfloor> < n"
    and "scoreToIndex T n score = Inr (int (bucket T n score))"
    and "int (bucket T n score) < n"
proof -
  let ?x = "fl T (score * fl T (real_of_int (n - 1)))"
  from product_range[OF assms(1-4,6,7)] have x: "0 \<le> ?x" "?x \<le> real_of_int (n - 1)" .
  show i0: "0 \<le> \<lfloor>?x\<rfloor>" using x(1) by simp
  have "\<lfloor>?x\<rfloor> \<le> \<lfloor>real_of_int (n - 1)\<rfloor>" using x(2) by (rule floor_mono)
  then have "\<lfloor>?x\<rfloor> \<le> n - 1" by (simp only: floor_of_int)
  then show lt: "\<lfloor>?x\<rfloor> < n" by simp
  have "real_of_int (n - 1) < 2 ^ 31" using assms(5) by simp
  with x(2) have "?x < 2 ^ 31" by simp
  then have "int_cast ?x = Some \<lfloor>?x\<rfloor>"
    using x(1) by (simp add: int_cast_def)
  then show s: "scoreToIndex T n score = Inr \<lfloor>?x\<rfloor>"
    using i0 lt by (simp add: scoreToIndex_def)
  then have b: "int (bucket T n score) = \<lfloor>?x\<rfloor>" using i0 by (simp add: bucket_def)
  show "scoreToIndex T n score = Inr (int (bucket T n score))" using s b by simp
  show "int (bucket T n score) < n" using b lt by simp
qed


text \<open>
  Claim C3, as amended. For a queue with \<open>2 \<le> N \<le> 2 ^ p\<close> buckets, \<open>p\<close> the precision of
  \<^verbatim>\<open>ScoreType\<close>, \<^verbatim>\<open>push(element, score)\<close> succeeds for every score in the closed interval
  \<open>[0,1]\<close>, so also for the score \<open>1\<close>, and appends the element to the bucket whose index
  is the rounded product \<open>score*(N-1)\<close> with its fraction discarded; this index is
  \<open>floor(score*(N-1))\<close> of the exact product or, when the rounding reaches the next
  integer, one more. The push fails with the range error for every score
  \<open>\<le> -1/(N-1)\<close> and every score \<open>\<ge> N/(N-1)\<close> whose rounded product is in the range of
  \<^verbatim>\<open>int\<close>; in general it fails with the range error exactly when the converted product is
  defined and lies outside \<open>[0,N)\<close>.
\<close>

theorem push_range_error:
  assumes "1 \<le> precision T" "emin T \<le> 0" "2 \<le> N q" "N q \<le> 2 ^ precision T" "N q < 2 ^ 31"
  shows "(let c = real_of_int (N q - 1); x = fl T (score * fl T c); i = \<lfloor>x\<rfloor> in
          (0 \<le> score \<and> score \<le> 1 \<longrightarrow>
             0 \<le> i \<and> i < N q \<and> \<lfloor>score * c\<rfloor> \<le> i \<and> i \<le> \<lfloor>score * c\<rfloor> + 1 \<and>
             push T element score q =
               Inr \<lparr>bins = (bins q)[nat i := bins q ! nat i @ [element]],
                    minBin = (if minBin q = - 1 then i else min i (minBin q))\<rparr>)
        \<and> ((score \<le> - 1 / c \<or> real_of_int (N q) / c \<le> score) \<and> - (2 ^ 31) \<le> x \<and> x < 2 ^ 31 \<longrightarrow>
             push T element score q =
               Inl (BinQueueOutOfBoundsException (if 0 \<le> x then \<lfloor>x\<rfloor> else \<lceil>x\<rceil>) (N q)))
        \<and> (\<forall>j. push T element score q = Inl (BinQueueOutOfBoundsException j (N q)) \<longleftrightarrow>
                 int_cast x = Some j \<and> (j < 0 \<or> N q \<le> j)))"
proof -
  define c where "c = real_of_int (N q - 1)"
  define x where "x = fl T (score * fl T c)"
  have n1: "1 \<le> N q" using assms(3) by simp
  have cpos: "0 < c" using assms(3) by (simp add: c_def)
  have flc: "fl T c = c" unfolding c_def using assms by (intro fl_int) simp_all
  have flN: "fl T (real_of_int (N q)) = real_of_int (N q)" using assms by (intro fl_int) simp_all
  have flm1: "fl T (- 1) = - 1" using fl_int[of 1 T] assms(1,2) by (simp add: fl_minus)
  have a: "0 \<le> \<lfloor>x\<rfloor> \<and> \<lfloor>x\<rfloor> < N q \<and> \<lfloor>score * c\<rfloor> \<le> \<lfloor>x\<rfloor> \<and> \<lfloor>x\<rfloor> \<le> \<lfloor>score * c\<rfloor> + 1 \<and>
           push T element score q =
             Inr \<lparr>bins = (bins q)[nat \<lfloor>x\<rfloor> := bins q ! nat \<lfloor>x\<rfloor> @ [element]],
                  minBin = (if minBin q = - 1 then \<lfloor>x\<rfloor> else min \<lfloor>x\<rfloor> (minBin q))\<rparr>"
    if s: "0 \<le> score \<and> score \<le> 1"
  proof -
    from s have s0: "0 \<le> score" and s1: "score \<le> 1" by simp_all
    note u = scoreToIndex_unit(1-3)[OF assms(1,2) n1 assms(4,5) s0 s1, folded c_def, folded x_def]
    let ?m = "\<lfloor>score * c\<rfloor>"
    have m0: "0 \<le> ?m" using s0 cpos by simp
    have "score * c \<le> c" using s1 cpos by simp
    then have "?m \<le> \<lfloor>c\<rfloor>" by (rule floor_mono)
    then have "?m \<le> N q - 1" unfolding c_def by (simp only: floor_of_int)
    then have m1: "?m + 1 \<le> 2 ^ precision T" "?m \<le> 2 ^ precision T" using assms(4) by simp_all
    have "fl T (real_of_int ?m) \<le> fl T (score * c)"
      using assms(1) by (intro fl_mono) simp_all
    then have "real_of_int ?m \<le> x"
      using fl_int[OF m0 m1(2) assms(1,2)] by (simp add: x_def flc)
    then have lo: "?m \<le> \<lfloor>x\<rfloor>" by (simp add: le_floor_iff)
    have "score * c \<le> real_of_int (?m + 1)" by linarith
    then have "fl T (score * c) \<le> fl T (real_of_int (?m + 1))"
      using assms(1) by (rule fl_mono)
    then have "x \<le> real_of_int (?m + 1)"
      using fl_int[OF _ m1(1) assms(1,2)] m0 by (simp add: x_def flc)
    then have hi: "\<lfloor>x\<rfloor> \<le> ?m + 1" by (simp add: floor_le_iff)
    show ?thesis using u lo hi by (simp add: push_def)
  qed
  have cast: "int_cast x = Some (if 0 \<le> x then \<lfloor>x\<rfloor> else \<lceil>x\<rceil>)"
    if "- (2 ^ 31) \<le> x" "x < 2 ^ 31"
  proof -
    have "- (2 ^ 31) \<le> \<lceil>x\<rceil>" using that(1) by (simp add: le_ceiling_iff)
    moreover have "\<lfloor>x\<rfloor> < 2 ^ 31" using that(2) by (simp add: floor_less_iff)
    moreover have "- (2 ^ 31) \<le> \<lfloor>x\<rfloor>" using that(1) by (simp add: le_floor_iff)
    moreover have "\<lceil>x\<rceil> < 2 ^ 31" if "\<not> 0 \<le> x"
    proof -
      from that have "\<lceil>x\<rceil> \<le> 0" by (simp add: ceiling_le_iff)
      then show ?thesis by simp
    qed
    ultimately show ?thesis by (simp add: int_cast_def)
  qed
  have b: "push T element score q =
             Inl (BinQueueOutOfBoundsException (if 0 \<le> x then \<lfloor>x\<rfloor> else \<lceil>x\<rceil>) (N q))"
    if h: "(score \<le> - 1 / c \<or> real_of_int (N q) / c \<le> score) \<and> - (2 ^ 31) \<le> x \<and> x < 2 ^ 31"
  proof -
    from h have r: "- (2 ^ 31) \<le> x" "x < 2 ^ 31" by simp_all
    from h consider "score \<le> - 1 / c" | "real_of_int (N q) / c \<le> score" by blast
    then have "(if 0 \<le> x then \<lfloor>x\<rfloor> else \<lceil>x\<rceil>) < 0 \<or> N q \<le> (if 0 \<le> x then \<lfloor>x\<rfloor> else \<lceil>x\<rceil>)"
    proof cases
      case 1
      then have "score * c \<le> - 1" using cpos by (simp add: field_simps)
      then have "fl T (score * c) \<le> fl T (- 1)" using assms(1) by (rule fl_mono)
      then have x1: "x \<le> - 1" by (simp add: x_def flc flm1)
      then have "\<not> 0 \<le> x" by simp
      with x1 show ?thesis by (simp add: ceiling_less_iff)
    next
      case 2
      then have "real_of_int (N q) \<le> score * c" using cpos by (simp add: field_simps)
      then have "fl T (real_of_int (N q)) \<le> fl T (score * c)" using assms(1) by (rule fl_mono)
      then have xN: "real_of_int (N q) \<le> x" by (simp add: x_def flc flN)
      then have "0 \<le> x" using n1 by simp
      with xN show ?thesis by (simp add: le_floor_iff)
    qed
    with cast[OF r] show ?thesis
      by (simp add: push_def scoreToIndex_def x_def c_def)
  qed
  have d: "push T element score q = Inl (BinQueueOutOfBoundsException j (N q)) \<longleftrightarrow>
             int_cast x = Some j \<and> (j < 0 \<or> N q \<le> j)" for j
    by (auto simp: push_def scoreToIndex_def x_def c_def split: option.splits)
  from a b d show ?thesis
    unfolding Let_def c_def[symmetric] x_def[symmetric] by blast
qed

text \<open>Some values of the rounding: \<open>255\<close> and \<open>255/2\<close> are representable.\<close>

lemma binary64_fields: "precision binary64 = 53" "emin binary64 = - 1022"
  by (simp_all add: binary64_def)

lemma fl_binary64_255: "fl binary64 255 = 255"
  by (simp add: fl_def ulp_def binary64_def ilog2.simps rne_def)

lemma fl_binary64_half: "fl binary64 (255 / 2) = 255 / 2"
  by (simp add: fl_def ulp_def binary64_def ilog2.simps rne_def)

lemma fl_binary32_255: "fl binary32 255 = 255"
  by (simp add: fl_def ulp_def binary32_def ilog2.simps rne_def)

theorem push_range_error_witness:
  "1 \<le> precision binary64 \<and> emin binary64 \<le> 0 \<and>
   2 \<le> N (BinQueue_init 256 :: nat BinQueue) \<and>
   N (BinQueue_init 256 :: nat BinQueue) \<le> 2 ^ precision binary64 \<and>
   N (BinQueue_init 256 :: nat BinQueue) < 2 ^ 31 \<and>
   push binary64 (7::nat) (1/2) (BinQueue_init 256)
     = Inr \<lparr>bins = (replicate 256 [])[127 := [7]], minBin = 127\<rparr>"
  using push_range_error[where T = binary64 and q = "BinQueue_init 256 :: nat BinQueue"
      and element = 7 and score = "1/2"]
  by (simp add: N_def BinQueue_init_def binary64_fields fl_binary64_255 fl_binary64_half)

text \<open>
  The score \<open>1\<close> lies outside \<open>[0,1)\<close>, yet with the default \<open>N = 256\<close> the push is
  accepted and lands in the last bucket, \<open>255\<close>: the product \<open>1 * 255\<close> is exact in
  \<^verbatim>\<open>double\<close> and in \<^verbatim>\<open>float\<close>.
\<close>

theorem push_score_one_accepted:
  "push binary64 (7::nat) 1 (BinQueue_init 256)
     = Inr \<lparr>bins = (replicate 256 [])[255 := [7]], minBin = 255\<rparr>
   \<and> push binary32 (7::nat) 1 (BinQueue_init 256)
     = Inr \<lparr>bins = (replicate 256 [])[255 := [7]], minBin = 255\<rparr>"
  by (simp add: push_def scoreToIndex_def int_cast_def BinQueue_init_def N_def
      fl_binary64_255 fl_binary32_255)


text \<open>
  Between \<open>1\<close> and \<open>N/(N-1)\<close>, and next to every integer, the rounding of the product
  decides. The \<^verbatim>\<open>double\<close> \<open>0x1.010101010101p+0\<close> is less than \<open>256/255\<close>, its product with
  \<open>255\<close> rounds to \<open>256\<close> and the push fails; the product of \<open>0x1.010101010101p-8\<close> and
  \<open>255\<close> is less than \<open>1\<close> and rounds to \<open>1\<close>, so that the element lands in bucket \<open>1\<close>.
\<close>

lemma fl_binary64_rounds_up:
  "fl binary64 (282578800148737 / 281474976710656 * 255) = 256"
  "fl binary64 (282578800148737 / 72057594037927936 * 255) = 1"
  by (simp_all add: fl_def ulp_def binary64_def ilog2.simps rne_def)

lemma rounded_product_decides:
  "(282578800148737 / 281474976710656 :: real) < 256 / 255"
  "push binary64 (7::nat) (282578800148737 / 281474976710656) (BinQueue_init 256)
     = Inl (BinQueueOutOfBoundsException 256 256)"
  "\<lfloor>282578800148737 / 72057594037927936 * 255 :: real\<rfloor> = 0"
  "bucket binary64 256 (282578800148737 / 72057594037927936) = 1"
proof -
  show "(282578800148737 / 281474976710656 :: real) < 256 / 255" by simp
  show "push binary64 (7::nat) (282578800148737 / 281474976710656) (BinQueue_init 256)
     = Inl (BinQueueOutOfBoundsException 256 256)"
    using fl_binary64_rounds_up(1)
    by (simp add: push_def scoreToIndex_def int_cast_def BinQueue_init_def N_def fl_binary64_255)
  show "\<lfloor>282578800148737 / 72057594037927936 * 255 :: real\<rfloor> = 0" by simp
  show "bucket binary64 256 (282578800148737 / 72057594037927936) = 1"
    using fl_binary64_rounds_up(2)
    by (simp add: bucket_def scoreToIndex_def int_cast_def fl_binary64_255)
qed















text \<open>
  An instance where the rounding decides the order: in \<^verbatim>\<open>double\<close>, with \<open>N = 256\<close>, the
  score \<open>0x1.010101010101p-8\<close> goes to bucket \<open>1\<close> and the score \<open>2 ^ -9\<close>, pushed after
  it, to bucket \<open>0\<close>; the second element is popped first.
\<close>

lemma fl_binary64_small: "fl binary64 (255 / 512) = 255 / 512"
  by (simp add: fl_def ulp_def binary64_def ilog2.simps rne_def)

lemma pop_order_example:
  "(case push_all binary64 [(1::nat, 282578800148737 / 72057594037927936), (2, 1 / 512)]
           (BinQueue_init 256) of
      Inl err \<Rightarrow> None | Inr q \<Rightarrow> pop_all q) = Some [2, 1]"
  using fl_binary64_rounds_up(2)
  by (simp add: push_def scoreToIndex_def int_cast_def BinQueue_init_def N_def fl_binary64_255
      fl_binary64_small pop_all.simps empty_bq_def top_bq_def pop_def findNext.simps)


section \<open>Histogram quantile provider (HistogramQuantileProvider.hpp)\<close>

text \<open>
  Modelled from the spec: \<^verbatim>\<open>Histogram.hpp\<close> is not among the sources. The spec describes a
  histogram as a ``fixed-size array of counts over discretized affinity bins'' whose total
  is the number of observations; \<^verbatim>\<open>inc\<close> adds one observation to a bin, \<^verbatim>\<open>+=\<close> adds another
  histogram bin-wise, \<^verbatim>\<open>clear\<close> resets every count, \<^verbatim>\<open>sum\<close> is the total count and
  \<^verbatim>\<open>operator[]\<close> reads one count.
\<close>

type_synonym Histogram = "nat list"

definition Histogram_init :: "int \<Rightarrow> Histogram" where
  "Histogram_init Bins = replicate (nat Bins) 0"

definition inc :: "int \<Rightarrow> Histogram \<Rightarrow> Histogram" where
  "inc bin h = h[nat bin := Suc (h ! nat bin)]"

definition hist_add :: "Histogram \<Rightarrow> Histogram \<Rightarrow> Histogram" where
  "hist_add h other = map2 (+) h other"

definition clear :: "Histogram \<Rightarrow> Histogram" where
  "clear h = replicate (length h) 0"

definition hist_sum :: "Histogram \<Rightarrow> int" where
  "hist_sum h = int (sum_list h)"

definition hist_at :: "Histogram \<Rightarrow> int \<Rightarrow> int" where
  "hist_at h bin = int (h ! nat bin)"

text \<open>
  Modelled from the spec: \<^verbatim>\<open>RegionGraph.hpp\<close> with its \<^verbatim>\<open>EdgeMap\<close> is not among the sources;
  the spec requires ``a generic associative container keyed by node/edge id (map
  semantics)'', here a total function from edge ids. The provider holds
  \<^verbatim>\<open>EdgeMap<Histogram<Bins>> _histograms\<close>, one histogram per edge id, every histogram empty
  at construction.

  The template constants \<open>Q\<close> and \<open>Bins\<close> and the helpers \<^verbatim>\<open>discretize\<close> and
  \<^verbatim>\<open>undiscretize\<close> of the absent \<^verbatim>\<open>discretize.hpp\<close> are arguments of the operations.
  The counts of a histogram and their total are taken to be values of \<^verbatim>\<open>int\<close>; what
  \<^verbatim>\<open>operator[]\<close> computes from them is computed in \<^verbatim>\<open>int\<close>, overflow included.
\<close>

type_synonym HistogramQuantileProvider = "nat \<Rightarrow> Histogram"

definition HistogramQuantileProvider_init :: "int \<Rightarrow> HistogramQuantileProvider" where
  "HistogramQuantileProvider_init Bins = (\<lambda>e. Histogram_init Bins)"

text \<open>\<^verbatim>\<open>addAffinity\<close>: a bin outside \<open>[0, Bins)\<close> would write outside the array of counts;
  the model returns \<open>None\<close> there.\<close>

definition addAffinity ::
  "(real \<Rightarrow> int \<Rightarrow> int) \<Rightarrow> int \<Rightarrow> nat \<Rightarrow> real \<Rightarrow> HistogramQuantileProvider
     \<Rightarrow> HistogramQuantileProvider option" where
  "addAffinity discretize Bins e affinity hs =
     (let bin = discretize affinity Bins in
      if 0 \<le> bin \<and> bin < Bins then Some (hs(e := inc bin (hs e))) else None)"

text \<open>\<^verbatim>\<open>notifyEdgeMerge\<close>: the two statements in order; with \<open>from = to\<close> the second one
  clears the histogram that the first one has just doubled.\<close>

definition hqp_notifyEdgeMerge ::
  "nat \<Rightarrow> nat \<Rightarrow> HistogramQuantileProvider \<Rightarrow> HistogramQuantileProvider" where
  "hqp_notifyEdgeMerge from to hs =
     (let hs1 = hs(to := hist_add (hs to) (hs from)) in
      hs1(from := clear (hs1 from)))"

text \<open>The scan of \<^verbatim>\<open>operator[]\<close>:
  \<^verbatim>\<open>for (bin = 0; bin < Bins; bin++) { sum += _histograms[e][bin]; if (sum >= pivot) break; }\<close>\<close>

function scanBins :: "int \<Rightarrow> Histogram \<Rightarrow> int \<Rightarrow> int \<Rightarrow> int \<Rightarrow> int" where
  "scanBins Bins h pivot sm bin =
     (if bin < Bins then
        (let sm' = wrap32 (sm + hist_at h bin) in
         if sm' \<ge> pivot then bin else scanBins Bins h pivot sm' (bin + 1))
      else bin)"
  by pat_completeness auto
termination
  by (relation "measure (\<lambda>(Bins, h, pivot, sm, bin). nat (Bins - bin))") auto

declare scanBins.simps [simp del]

text \<open>\<^verbatim>\<open>operator[]\<close>, with \<^verbatim>\<open>int pivot = Q*_histograms[e].sum()/100 + 1\<close>: the product, the
  pivot and the running sum of the scan are values of \<^verbatim>\<open>int\<close>; the integer division of
  C++ truncates towards zero (\<open>sdiv\<close>).\<close>

definition quantileBin :: "int \<Rightarrow> int \<Rightarrow> Histogram \<Rightarrow> int" where
  "quantileBin Q Bins h =
     (let pivot = wrap32 (wrap32 (Q * hist_sum h) sdiv 100 + 1) in scanBins Bins h pivot 0 0)"

definition hqp_score ::
  "(int \<Rightarrow> int \<Rightarrow> real) \<Rightarrow> int \<Rightarrow> int \<Rightarrow> HistogramQuantileProvider \<Rightarrow> nat \<Rightarrow> real" where
  "hqp_score undiscretize Q Bins hs e = undiscretize (quantileBin Q Bins (hs e)) Bins"

text \<open>
  Modelled from the spec: \<^verbatim>\<open>discretize.hpp\<close> is not among the sources. The spec says that a
  value, assumed in \<open>[0,1]\<close>, is discretized ``into one of \<open>Bins\<close> buckets'' and that a score
  is ``that bin's representative (undiscretized) value''. The two functions below are one
  such pair (equal-width bins, the value \<open>1\<close> in the last bin, the midpoint as
  representative); they only instantiate the parameters in concrete examples.
\<close>

definition discretize_spec :: "real \<Rightarrow> int \<Rightarrow> int" where
  "discretize_spec v levels = min \<lfloor>v * real_of_int levels\<rfloor> (levels - 1)"

definition undiscretize_spec :: "int \<Rightarrow> int \<Rightarrow> real" where
  "undiscretize_spec bin levels = (real_of_int bin + 1 / 2) / real_of_int levels"

text \<open>A sequence of calls on the provider, and the total count over the edges \<open>0..<n\<close>.\<close>

datatype hqp_call = AddAffinity nat real | NotifyEdgeMerge nat nat

fun run_call ::
  "(real \<Rightarrow> int \<Rightarrow> int) \<Rightarrow> int \<Rightarrow> hqp_call \<Rightarrow> HistogramQuantileProvider
     \<Rightarrow> HistogramQuantileProvider option" where
  "run_call discretize Bins (AddAffinity e affinity) hs = addAffinity discretize Bins e affinity hs"
| "run_call discretize Bins (NotifyEdgeMerge from to) hs = Some (hqp_notifyEdgeMerge from to hs)"

fun run_calls ::
  "(real \<Rightarrow> int \<Rightarrow> int) \<Rightarrow> int \<Rightarrow> hqp_call list \<Rightarrow> HistogramQuantileProvider
     \<Rightarrow> HistogramQuantileProvider option" where
  "run_calls discretize Bins [] hs = Some hs"
| "run_calls discretize Bins (c # cs) hs =
     (case run_call discretize Bins c hs of
        None \<Rightarrow> None
      | Some hs' \<Rightarrow> run_calls discretize Bins cs hs')"

definition total_count :: "nat \<Rightarrow> HistogramQuantileProvider \<Rightarrow> int" where
  "total_count n hs = (\<Sum>e \<leftarrow> [0..<n]. hist_sum (hs e))"

fun is_add :: "hqp_call \<Rightarrow> bool" where
  "is_add (AddAffinity e affinity) = True"
| "is_add (NotifyEdgeMerge from to) = False"

text \<open>A call is in range when its edge ids are edges of the graph (\<open>< n\<close>) and the
  affinity discretizes to a bin of the histogram; it is a proper merge when
  \<open>from\<close> and \<open>to\<close> differ.\<close>

fun call_ok :: "(real \<Rightarrow> int \<Rightarrow> int) \<Rightarrow> int \<Rightarrow> nat \<Rightarrow> hqp_call \<Rightarrow> bool" where
  "call_ok discretize Bins n (AddAffinity e affinity) =
     (e < n \<and> 0 \<le> discretize affinity Bins \<and> discretize affinity Bins < Bins)"
| "call_ok discretize Bins n (NotifyEdgeMerge from to) = (from < n \<and> to < n \<and> from \<noteq> to)"

definition hists_ok :: "int \<Rightarrow> nat \<Rightarrow> HistogramQuantileProvider \<Rightarrow> bool" where
  "hists_ok Bins n hs = list_all (\<lambda>e. length (hs e) = nat Bins) [0..<n]"

subsection \<open>Properties of the provider\<close>

lemma hist_sum_inc:
  "nat bin < length h \<Longrightarrow> hist_sum (inc bin h) = hist_sum h + 1"
proof -
  assume a: "nat bin < length h"
  have "sum_list (h[nat bin := Suc (h ! nat bin)]) = sum_list h + Suc (h ! nat bin) - h ! nat bin"
    using a by (rule sum_list_update)
  then show ?thesis by (simp add: hist_sum_def inc_def)
qed

lemma sum_list_map2_add:
  "length xs = length ys \<Longrightarrow> sum_list (map2 (+) xs ys) = sum_list xs + sum_list (ys :: nat list)"
  by (induction xs ys rule: list_induct2) auto

lemma hist_sum_add:
  "length h = length h' \<Longrightarrow> hist_sum (hist_add h h') = hist_sum h + hist_sum h'"
  by (simp add: hist_sum_def hist_add_def sum_list_map2_add)

lemma hist_sum_clear [simp]: "hist_sum (clear h) = 0"
  by (simp add: hist_sum_def clear_def)

lemma length_inc [simp]: "length (inc bin h) = length h"
  by (simp add: inc_def)

lemma length_clear [simp]: "length (clear h) = length h"
  by (simp add: clear_def)

lemma length_hist_add [simp]: "length h = length h' \<Longrightarrow> length (hist_add h h') = length h"
  by (simp add: hist_add_def)

lemma total_count_upd:
  "e < n \<Longrightarrow> total_count n (hs(e := h)) = total_count n hs - hist_sum (hs e) + hist_sum h"
proof (induction n)
  case 0
  then show ?case by simp
next
  case (Suc n)
  show ?case
  proof (cases "e = n")
    case True
    have "(\<Sum>x\<leftarrow>[0..<n]. hist_sum ((hs(n := h)) x)) = (\<Sum>x\<leftarrow>[0..<n]. hist_sum (hs x))"
      by (rule arg_cong[where f = sum_list]) (simp add: map_eq_conv)
    with True show ?thesis by (simp add: total_count_def)
  next
    case False
    with Suc.prems have "e < n" by simp
    then have "total_count n (hs(e := h)) = total_count n hs - hist_sum (hs e) + hist_sum h"
      by (rule Suc.IH)
    with False show ?thesis by (simp add: total_count_def)
  qed
qed

lemma hists_ok_nth: "hists_ok Bins n hs \<Longrightarrow> e < n \<Longrightarrow> length (hs e) = nat Bins"
  by (simp add: hists_ok_def list_all_iff)

lemma hists_okI: "(\<And>e. e < n \<Longrightarrow> length (hs e) = nat Bins) \<Longrightarrow> hists_ok Bins n hs"
  by (simp add: hists_ok_def list_all_iff)

lemma run_call_total:
  assumes "hists_ok Bins n hs" "call_ok discretize Bins n c"
  shows "\<exists>hs'. run_call discretize Bins c hs = Some hs' \<and> hists_ok Bins n hs' \<and>
           total_count n hs' = total_count n hs + (if is_add c then 1 else 0)"
proof (cases c)
  case (AddAffinity e a)
  let ?bin = "discretize a Bins"
  from assms AddAffinity have e: "e < n" and b: "0 \<le> ?bin" "?bin < Bins" by auto
  have len: "length (hs e) = nat Bins" using assms(1) e by (rule hists_ok_nth)
  let ?hs' = "hs(e := inc ?bin (hs e))"
  have r: "run_call discretize Bins c hs = Some ?hs'"
    using AddAffinity b by (simp add: addAffinity_def)
  have "nat ?bin < length (hs e)" using b len by simp
  then have "hist_sum (inc ?bin (hs e)) = hist_sum (hs e) + 1" by (rule hist_sum_inc)
  then have t: "total_count n ?hs' = total_count n hs + 1"
    using total_count_upd[OF e, of hs "inc ?bin (hs e)"] by simp
  have "hists_ok Bins n ?hs'"
    using assms(1) by (intro hists_okI) (auto simp: hists_ok_nth)
  with r t AddAffinity show ?thesis by simp
next
  case (NotifyEdgeMerge f t)
  from assms NotifyEdgeMerge have f: "f < n" and t: "t < n" and ne: "f \<noteq> t" by auto
  have lf: "length (hs f) = nat Bins" and lt: "length (hs t) = nat Bins"
    using assms(1) f t by (auto simp: hists_ok_nth)
  let ?hs1 = "hs(t := hist_add (hs t) (hs f))"
  let ?hs' = "?hs1(f := clear (?hs1 f))"
  have r: "run_call discretize Bins c hs = Some ?hs'"
    using NotifyEdgeMerge by (simp add: hqp_notifyEdgeMerge_def Let_def)
  have "total_count n ?hs1 = total_count n hs + hist_sum (hs f)"
    using total_count_upd[OF t, of hs "hist_add (hs t) (hs f)"] lf lt
    by (simp add: hist_sum_add)
  moreover have "total_count n ?hs' = total_count n ?hs1 - hist_sum (?hs1 f) + 0"
    using total_count_upd[OF f, of ?hs1 "clear (?hs1 f)"] by simp
  ultimately have tc: "total_count n ?hs' = total_count n hs" using ne by simp
  have "hists_ok Bins n ?hs'"
    using assms(1) lf lt by (intro hists_okI) (auto simp: hists_ok_nth)
  with r tc NotifyEdgeMerge show ?thesis by simp
qed

lemma run_calls_total:
  assumes "hists_ok Bins n hs" "list_all (call_ok discretize Bins n) cs"
  shows "\<exists>hs'. run_calls discretize Bins cs hs = Some hs' \<and> hists_ok Bins n hs' \<and>
           total_count n hs' = total_count n hs + int (length (filter is_add cs))"
  using assms
proof (induction cs arbitrary: hs)
  case Nil
  then show ?case by simp
next
  case (Cons c cs)
  from run_call_total[OF Cons.prems(1), of discretize c] Cons.prems(2) obtain hs1 where
    h1: "run_call discretize Bins c hs = Some hs1" "hists_ok Bins n hs1"
        "total_count n hs1 = total_count n hs + (if is_add c then 1 else 0)"
    by auto
  from Cons.IH[OF h1(2)] Cons.prems(2) obtain hs' where
    "run_calls discretize Bins cs hs1 = Some hs'" "hists_ok Bins n hs'"
    "total_count n hs' = total_count n hs1 + int (length (filter is_add cs))"
    by auto
  with h1 show ?case by simp
qed

lemma hist_sum_init [simp]: "hist_sum (Histogram_init Bins) = 0"
  by (simp add: Histogram_init_def hist_sum_def)

lemma total_count_init: "total_count n (HistogramQuantileProvider_init Bins) = 0"
  by (induction n) (simp_all add: total_count_def HistogramQuantileProvider_init_def)

lemma hists_ok_init: "hists_ok Bins n (HistogramQuantileProvider_init Bins)"
  by (simp add: hists_ok_def HistogramQuantileProvider_init_def Histogram_init_def list_all_iff)

text \<open>
  Claim C6, as amended. Starting from a fresh provider for a graph with \<open>n\<close> edges, after
  every sequence of \<^verbatim>\<open>addAffinity\<close> and \<^verbatim>\<open>notifyEdgeMerge\<close> calls in which the edge ids are
  edges of the graph, every affinity discretizes to a bin in \<open>[0, Bins)\<close> and every
  \<^verbatim>\<open>notifyEdgeMerge(from, to)\<close> has \<open>from \<noteq> to\<close>, all calls return and the total bin count
  summed over all edge histograms equals the number of \<^verbatim>\<open>addAffinity\<close> calls.
\<close>

theorem total_count_additions:
  assumes "list_all (call_ok discretize Bins n) cs"
  shows "\<exists>hs. run_calls discretize Bins cs (HistogramQuantileProvider_init Bins) = Some hs \<and>
           total_count n hs = int (length (filter is_add cs))"
  using run_calls_total[OF hists_ok_init assms] by (auto simp: total_count_init)

theorem total_count_additions_witness:
  "list_all (call_ok discretize_spec 4 2) [AddAffinity 0 (1/2), AddAffinity 1 1, NotifyEdgeMerge 0 1] \<and>
   (\<exists>hs. run_calls discretize_spec 4 [AddAffinity 0 (1/2), AddAffinity 1 1, NotifyEdgeMerge 0 1]
            (HistogramQuantileProvider_init 4) = Some hs \<and>
         total_count 2 hs = 2)"
  using total_count_additions[of discretize_spec 4 2
      "[AddAffinity 0 (1/2), AddAffinity 1 1, NotifyEdgeMerge 0 1]"]
  by (simp add: discretize_spec_def)

text \<open>
  \<^verbatim>\<open>notifyEdgeMerge(e, e)\<close> adds the histogram of \<open>e\<close> to itself and then clears it: after
  one \<^verbatim>\<open>addAffinity\<close> on edge \<open>0\<close> and \<^verbatim>\<open>notifyEdgeMerge(0, 0)\<close> the total count is \<open>0\<close>, not
  \<open>1\<close>.
\<close>

theorem self_merge_loses_counts:
  "map_option (total_count 1)
     (run_calls discretize_spec 4 [AddAffinity 0 (1/2), NotifyEdgeMerge 0 0]
        (HistogramQuantileProvider_init 4)) = Some 0
   \<and> length (filter is_add [AddAffinity 0 (1/2), NotifyEdgeMerge 0 0]) = 1"
  by (simp add: addAffinity_def discretize_spec_def hqp_notifyEdgeMerge_def total_count_def)


lemma wrap32_0 [simp]: "wrap32 0 = 0"
  by (simp add: wrap32_def)

lemma wrap32_1 [simp]: "wrap32 1 = 1"
  by (simp add: wrap32_def)

lemma scanBins_zero:
  assumes "\<forall>i < length h. h ! i = 0" "int (length h) = Bins" "0 \<le> bin" "bin \<le> Bins"
    and "sm = 0" "0 < pivot"
  shows "scanBins Bins h pivot sm bin = Bins"
  using assms
proof (induction Bins h pivot sm bin rule: scanBins.induct)
  case (1 Bins h pivot sm bin)
  show ?case
  proof (cases "bin < Bins")
    case False
    with 1(5) show ?thesis by (subst scanBins.simps) simp
  next
    case True
    then have z: "hist_at h bin = 0" using 1(2,3,4) by (simp add: hist_at_def)
    then have w: "wrap32 (sm + hist_at h bin) = 0" using 1(6) by simp
    then have "scanBins Bins h pivot sm bin = scanBins Bins h pivot 0 (bin + 1)"
      using True 1(7) by (subst scanBins.simps) simp
    moreover have "scanBins Bins h pivot (wrap32 (sm + hist_at h bin)) (bin + 1) = Bins"
      using 1(1)[OF True refl] 1(2-5,7) True w by simp
    ultimately show ?thesis using w by simp
  qed
qed

text \<open>
  Claim C9. For an edge whose histogram (of \<open>Bins \<ge> 0\<close> bins) holds zero samples the pivot
  is \<open>1\<close>, the scan runs past every bin and the score is \<^verbatim>\<open>undiscretize(Bins, Bins)\<close>, the
  representative of the index one past the last bin, whatever \<open>Q\<close> and the edge are.
\<close>

theorem score_zero_samples:
  assumes "0 \<le> Bins" "length (hs e) = nat Bins" "hist_sum (hs e) = 0"
  shows "hqp_score undiscretize Q Bins hs e = undiscretize Bins Bins"
proof -
  have "\<forall>i < length (hs e). hs e ! i = 0"
    using assms(3) by (auto simp: hist_sum_def)
  then have "scanBins Bins (hs e) 1 0 0 = Bins"
    using assms(1,2) by (intro scanBins_zero) auto
  then show ?thesis using assms(3) by (simp add: hqp_score_def quantileBin_def)
qed

theorem score_zero_samples_witness:
  "(0::int) \<le> 4 \<and> length (HistogramQuantileProvider_init 4 0) = nat 4 \<and>
   hist_sum (HistogramQuantileProvider_init 4 0) = 0 \<and>
   hqp_score undiscretize_spec 50 4 (HistogramQuantileProvider_init 4) 0 = 9 / 8"
  using score_zero_samples[of 4 "HistogramQuantileProvider_init 4" 0 undiscretize_spec 50]
  by (simp add: HistogramQuantileProvider_init_def Histogram_init_def hist_sum_def
      undiscretize_spec_def)

section \<open>Union-find forest of the engine (IterativeRegionMerging.hpp)\<close>

text \<open>
  \<^verbatim>\<open>std::map<NodeIdType, NodeIdType> _rootPaths\<close> maps a node to its parent; a node without
  an entry is a root. \<^verbatim>\<open>getRoot\<close> walks up to the root and then rewrites the entries on the
  path. Both loops run forever on a cyclic map, and \<^verbatim>\<open>at\<close> throws on a missing key: the
  model returns \<open>None\<close> when the call does not return normally. (The variable \<^verbatim>\<open>root\<close> is
  \<open>rt\<close>, \<^verbatim>\<open>id\<close> is \<open>nid\<close>.)
\<close>

type_synonym RootPaths = "nat \<rightharpoonup> nat"

definition isRoot :: "RootPaths \<Rightarrow> nat \<Rightarrow> bool" where
  "isRoot m nid = (m nid = None)"

partial_function (option) walkUp :: "RootPaths \<Rightarrow> nat \<Rightarrow> nat option" where
  "walkUp m rt =
     (if \<not> isRoot m rt then (case m rt of None \<Rightarrow> None | Some p \<Rightarrow> walkUp m p)
      else Some rt)"

partial_function (option) compressPath :: "RootPaths \<Rightarrow> nat \<Rightarrow> nat \<Rightarrow> RootPaths option" where
  "compressPath m rt nid =
     (if nid \<noteq> rt then
        (case m nid of None \<Rightarrow> None | Some next \<Rightarrow> compressPath (m(nid \<mapsto> rt)) rt next)
      else Some m)"

definition getRoot :: "RootPaths \<Rightarrow> nat \<Rightarrow> (nat \<times> RootPaths) option" where
  "getRoot m nid =
     (if isRoot m nid then Some (nid, m)
      else (case m nid of
              None \<Rightarrow> None
            | Some p \<Rightarrow>
                (case walkUp m p of
                   None \<Rightarrow> None
                 | Some rt \<Rightarrow>
                     if m nid \<noteq> Some rt then
                       (case compressPath m rt nid of
                          None \<Rightarrow> None
                        | Some m' \<Rightarrow> Some (rt, m'))
                     else Some (rt, m))))"

text \<open>\<^verbatim>\<open>extractSegmentation\<close> replaces every element of the volume, a flat sequence of
  ids, by its root, in order; each \<^verbatim>\<open>getRoot\<close> may compress paths.\<close>

fun extractSegmentation :: "RootPaths \<Rightarrow> nat list \<Rightarrow> (nat list \<times> RootPaths) option" where
  "extractSegmentation m [] = Some ([], m)"
| "extractSegmentation m (x # xs) =
     (case getRoot m x of
        None \<Rightarrow> None
      | Some (r, m1) \<Rightarrow>
          (case extractSegmentation m1 xs of
             None \<Rightarrow> None
           | Some (rs, m2) \<Rightarrow> Some (r # rs, m2)))"

text \<open>
  The operations that change the forest: \<open>Merge a b\<close> is the assignment
  \<^verbatim>\<open>_rootPaths[b] = a\<close> of \<^verbatim>\<open>mergeRegions\<close> (\<open>b\<close> absorbed into \<open>a\<close>), \<open>GetRoot x\<close> a call of
  \<^verbatim>\<open>getRoot\<close> with its path compression. \<open>merges_ok D\<close> says that every merge of a sequence
  joins two different current roots, \<open>D\<close> being the set of nodes absorbed so far.
\<close>

datatype uf_op = Merge nat nat | GetRoot nat

fun uf_step :: "uf_op \<Rightarrow> RootPaths \<Rightarrow> RootPaths option" where
  "uf_step (Merge a b) m = Some (m(b \<mapsto> a))"
| "uf_step (GetRoot x) m = map_option snd (getRoot m x)"

fun uf_run :: "uf_op list \<Rightarrow> RootPaths \<Rightarrow> RootPaths option" where
  "uf_run [] m = Some m"
| "uf_run (c # cs) m = (case uf_step c m of None \<Rightarrow> None | Some m' \<Rightarrow> uf_run cs m')"

fun merges_ok :: "nat set \<Rightarrow> uf_op list \<Rightarrow> bool" where
  "merges_ok D [] = True"
| "merges_ok D (Merge a b # cs) = (a \<notin> D \<and> b \<notin> D \<and> a \<noteq> b \<and> merges_ok (insert b D) cs)"
| "merges_ok D (GetRoot x # cs) = merges_ok D cs"

text \<open>\<open>reach m n x\<close> follows at most \<open>n\<close> parent links from \<open>x\<close> and returns the root it
  arrives at; a forest is well-formed when every node reaches a root.\<close>

fun reach :: "RootPaths \<Rightarrow> nat \<Rightarrow> nat \<Rightarrow> nat option" where
  "reach m 0 x = (if m x = None then Some x else None)"
| "reach m (Suc n) x = (case m x of None \<Rightarrow> Some x | Some p \<Rightarrow> reach m n p)"

definition reaches :: "RootPaths \<Rightarrow> nat \<Rightarrow> nat \<Rightarrow> bool" where
  "reaches m x r = (\<exists>n. reach m n x = Some r)"

definition wf_forest :: "RootPaths \<Rightarrow> bool" where
  "wf_forest m = (\<forall>x. \<exists>r. reaches m x r)"

definition same_root :: "RootPaths \<Rightarrow> nat \<Rightarrow> nat \<Rightarrow> bool" where
  "same_root m x y = (\<exists>r. reaches m x r \<and> reaches m y r)"

subsection \<open>Properties of the forest\<close>

lemma reach_root: "reach m n x = Some r \<Longrightarrow> m r = None"
  by (induction n arbitrary: x) (auto split: if_splits option.splits)

lemma reach_Suc: "reach m n x = Some r \<Longrightarrow> reach m (Suc n) x = Some r"
proof (induction n arbitrary: x)
  case 0
  then show ?case by (auto split: if_splits)
next
  case (Suc n)
  show ?case
  proof (cases "m x")
    case None
    with Suc.prems show ?thesis by simp
  next
    case (Some p)
    with Suc.prems have "reach m n p = Some r" by simp
    then have "reach m (Suc n) p = Some r" by (rule Suc.IH)
    with Some show ?thesis by (subst reach.simps) simp
  qed
qed

lemma reach_mono: "reach m n x = Some r \<Longrightarrow> n \<le> k \<Longrightarrow> reach m k x = Some r"
proof (induction k)
  case 0
  then show ?case by simp
next
  case (Suc k)
  show ?case
  proof (cases "n \<le> k")
    case True
    with Suc have "reach m k x = Some r" by simp
    then show ?thesis by (rule reach_Suc)
  next
    case False
    with Suc.prems have "n = Suc k" by simp
    with Suc.prems show ?thesis by simp
  qed
qed

lemma reaches_unique:
  assumes "reaches m x r" "reaches m x r'"
  shows "r = r'"
proof -
  from assms obtain n n' where "reach m n x = Some r" "reach m n' x = Some r'"
    by (auto simp: reaches_def)
  then have "reach m (max n n') x = Some r" "reach m (max n n') x = Some r'"
    by (auto intro: reach_mono)
  then show ?thesis by simp
qed

lemma reaches_rootI: "m x = None \<Longrightarrow> reaches m x x"
  unfolding reaches_def by (rule exI[of _ 0]) simp

lemma reaches_stepI:
  assumes "m x = Some p" "reaches m p r"
  shows "reaches m x r"
proof -
  from assms(2) obtain n where "reach m n p = Some r" unfolding reaches_def by blast
  with assms(1) have "reach m (Suc n) x = Some r" by simp
  then show ?thesis unfolding reaches_def by blast
qed

lemma reaches_root: "reaches m x r \<Longrightarrow> m r = None"
  by (auto simp: reaches_def dest: reach_root)

lemma reaches_step: "m x = Some p \<Longrightarrow> reaches m x r \<Longrightarrow> reaches m p r"
proof -
  assume a: "m x = Some p" and "reaches m x r"
  then obtain n where n: "reach m n x = Some r" by (auto simp: reaches_def)
  with a obtain k where "n = Suc k" by (cases n) auto
  with n a show ?thesis by (auto simp: reaches_def)
qed

lemma walkUp_reach: "reach m n x = Some r \<Longrightarrow> walkUp m x = Some r"
proof (induction n arbitrary: x)
  case 0
  then show ?case by (subst walkUp.simps) (auto simp: isRoot_def split: if_splits)
next
  case (Suc n)
  show ?case
  proof (cases "m x")
    case None
    with Suc.prems show ?thesis by (subst walkUp.simps) (simp add: isRoot_def)
  next
    case (Some p)
    with Suc have "walkUp m p = Some r" by simp
    with Some show ?thesis by (subst walkUp.simps) (simp add: isRoot_def)
  qed
qed

lemma link_root:
  assumes "m a = None" "m b = None" "a \<noteq> b" "m x = None"
  shows "reaches (m(b \<mapsto> a)) x (if x = b then a else x)"
proof (cases "x = b")
  case True
  have "(m(b \<mapsto> a)) a = None" using assms(1,3) by simp
  then have "reaches (m(b \<mapsto> a)) a a" by (rule reaches_rootI)
  moreover have "(m(b \<mapsto> a)) b = Some a" by simp
  ultimately have "reaches (m(b \<mapsto> a)) b a" by (rule reaches_stepI[rotated])
  with True show ?thesis by simp
next
  case False
  then have "(m(b \<mapsto> a)) x = None" using assms(4) by simp
  then have "reaches (m(b \<mapsto> a)) x x" by (rule reaches_rootI)
  with False show ?thesis by simp
qed

lemma reach_link:
  assumes "m a = None" "m b = None" "a \<noteq> b" "reach m n x = Some r"
  shows "reaches (m(b \<mapsto> a)) x (if r = b then a else r)"
  using assms(4)
proof (induction n arbitrary: x)
  case 0
  then have x: "m x = None" "r = x" by (simp_all split: if_splits)
  from link_root[OF assms(1-3) x(1)] show ?case unfolding x(2) .
next
  case (Suc n)
  show ?case
  proof (cases "m x")
    case None
    with Suc.prems have x: "r = x" by simp
    from link_root[OF assms(1-3) None] show ?thesis unfolding x .
  next
    case (Some p)
    with Suc.prems have "reach m n p = Some r" by simp
    then have ih: "reaches (m(b \<mapsto> a)) p (if r = b then a else r)" by (rule Suc.IH)
    have "x \<noteq> b" using Some assms(2) by auto
    then have "(m(b \<mapsto> a)) x = Some p" using Some by simp
    then show ?thesis using ih by (rule reaches_stepI)
  qed
qed

lemma reaches_link:
  assumes "m a = None" "m b = None" "a \<noteq> b" "reaches m x r"
  shows "reaches (m(b \<mapsto> a)) x (if r = b then a else r)"
proof -
  from assms(4) obtain n where "reach m n x = Some r" unfolding reaches_def by blast
  with assms(1-3) show ?thesis by (rule reach_link)
qed

lemma reach_compress:
  assumes "reaches m x r" "m x \<noteq> None" "reach m n y = Some s"
  shows "reach (m(x \<mapsto> r)) n y = Some s"
  using assms(3)
proof (induction n arbitrary: y)
  case 0
  then have "m y = None" "s = y" by (auto split: if_splits)
  with assms(2) show ?case by auto
next
  case (Suc n)
  have rr: "m r = None" using assms(1) by (rule reaches_root)
  then have rx: "r \<noteq> x" using assms(2) by auto
  show ?case
  proof (cases "m y")
    case None
    with Suc.prems assms(2) show ?thesis by auto
  next
    case (Some p)
    with Suc.prems have p: "reach m n p = Some s" by simp
    show ?thesis
    proof (cases "y = x")
      case True
      have "reaches m x s" unfolding reaches_def using Suc.prems True by blast
      with assms(1) have "s = r" by (auto dest: reaches_unique)
      moreover have "reach (m(x \<mapsto> r)) n r = Some r"
        using rr rx by (cases n) auto
      moreover have "reach (m(x \<mapsto> r)) (Suc n) x = reach (m(x \<mapsto> r)) n r"
        by simp
      ultimately show ?thesis unfolding True by (simp only:)
    next
      case False
      with Some Suc.IH[OF p] show ?thesis by simp
    qed
  qed
qed

text \<open>\<open>keeps m m'\<close>: the forest \<open>m'\<close> has the nodes of \<open>m\<close> and every node keeps its root.\<close>

definition keeps :: "RootPaths \<Rightarrow> RootPaths \<Rightarrow> bool" where
  "keeps m m' = (dom m' = dom m \<and> (\<forall>y s. reaches m y s \<longrightarrow> reaches m' y s))"

lemma keeps_refl: "keeps m m"
  by (simp add: keeps_def)

lemma keeps_trans: "keeps m m1 \<Longrightarrow> keeps m1 m2 \<Longrightarrow> keeps m m2"
  by (simp add: keeps_def)

lemma keeps_compress_step:
  assumes "reaches m x r" "m x \<noteq> None"
  shows "keeps m (m(x \<mapsto> r))"
  unfolding keeps_def
proof (intro conjI allI impI)
  show "dom (m(x \<mapsto> r)) = dom m" using assms(2) by auto
next
  fix y s
  assume "reaches m y s"
  then obtain n where "reach m n y = Some s" unfolding reaches_def by blast
  with assms have "reach (m(x \<mapsto> r)) n y = Some s" by (rule reach_compress)
  then show "reaches (m(x \<mapsto> r)) y s" unfolding reaches_def by blast
qed

lemma compressPath_reach:
  "reach m n x = Some r \<Longrightarrow> \<exists>m'. compressPath m r x = Some m' \<and> keeps m m'"
proof (induction n arbitrary: m x)
  case 0
  then have "x = r" by (auto split: if_splits)
  then show ?case by (subst compressPath.simps) (simp add: keeps_refl)
next
  case (Suc n)
  show ?case
  proof (cases "x = r")
    case True
    then show ?thesis by (subst compressPath.simps) (simp add: keeps_refl)
  next
    case False
    with Suc.prems obtain p where p: "m x = Some p" "reach m n p = Some r"
      by (cases "m x") auto
    have xr: "reaches m x r" unfolding reaches_def using Suc.prems by blast
    have k: "keeps m (m(x \<mapsto> r))" using xr p(1) by (intro keeps_compress_step) auto
    have "reach (m(x \<mapsto> r)) n p = Some r"
      using xr _ p(2) by (rule reach_compress) (simp add: p(1))
    from Suc.IH[OF this] obtain m' where
      m': "compressPath (m(x \<mapsto> r)) r p = Some m'" "keeps (m(x \<mapsto> r)) m'"
      by blast
    have "compressPath m r x = Some m'"
      using False p(1) m'(1) by (subst compressPath.simps) simp
    with keeps_trans[OF k m'(2)] show ?thesis by blast
  qed
qed

lemma getRoot_reaches:
  assumes "reaches m x r"
  shows "\<exists>m'. getRoot m x = Some (r, m') \<and> keeps m m'"
proof (cases "m x")
  case None
  with assms have "r = x" by (auto dest: reaches_unique intro: reaches_rootI)
  with None show ?thesis by (simp add: getRoot_def isRoot_def keeps_refl)
next
  case (Some p)
  from assms obtain n where n: "reach m n x = Some r" by (auto simp: reaches_def)
  from Some assms have "reaches m p r" by (rule reaches_step)
  then obtain k where "reach m k p = Some r" by (auto simp: reaches_def)
  then have w: "walkUp m p = Some r" by (rule walkUp_reach)
  from compressPath_reach[OF n] obtain m' where
    "compressPath m r x = Some m'" "keeps m m'" by blast
  with Some w show ?thesis by (auto simp: getRoot_def isRoot_def keeps_refl)
qed

lemma getRoot_root: "m x = None \<Longrightarrow> getRoot m x = Some (x, m)"
  by (simp add: getRoot_def isRoot_def)

lemma keepsD: "keeps m m' \<Longrightarrow> reaches m y s \<Longrightarrow> reaches m' y s"
  by (simp add: keeps_def)

lemma keeps_wf:
  assumes "keeps m m'" "wf_forest m"
  shows "wf_forest m'"
  unfolding wf_forest_def
proof
  fix x
  from assms(2) obtain r where "reaches m x r" unfolding wf_forest_def by blast
  with assms(1) have "reaches m' x r" by (rule keepsD)
  then show "\<exists>r. reaches m' x r" ..
qed

lemma keeps_same:
  assumes "keeps m m'" "same_root m x y"
  shows "same_root m' x y"
proof -
  from assms(2) obtain r where r: "reaches m x r" "reaches m y r"
    unfolding same_root_def by blast
  have "reaches m' x r" using assms(1) r(1) by (rule keepsD)
  moreover have "reaches m' y r" using assms(1) r(2) by (rule keepsD)
  ultimately show ?thesis unfolding same_root_def by blast
qed

lemma link_wf:
  assumes "wf_forest m" "m a = None" "m b = None" "a \<noteq> b"
  shows "wf_forest (m(b \<mapsto> a))"
  unfolding wf_forest_def
proof
  fix x
  from assms(1) obtain r where "reaches m x r" by (auto simp: wf_forest_def)
  from reaches_link[OF assms(2-4) this] show "\<exists>r. reaches (m(b \<mapsto> a)) x r" by blast
qed

lemma link_same:
  assumes "m a = None" "m b = None" "a \<noteq> b" "same_root m x y"
  shows "same_root (m(b \<mapsto> a)) x y"
proof -
  from assms(4) obtain r where r: "reaches m x r" "reaches m y r" by (auto simp: same_root_def)
  have "reaches (m(b \<mapsto> a)) x (if r = b then a else r)"
    using assms(1-3) r(1) by (rule reaches_link)
  moreover have "reaches (m(b \<mapsto> a)) y (if r = b then a else r)"
    using assms(1-3) r(2) by (rule reaches_link)
  ultimately show ?thesis unfolding same_root_def by blast
qed

lemma link_joins:
  assumes "m a = None" "m b = None" "a \<noteq> b"
  shows "same_root (m(b \<mapsto> a)) b a"
proof -
  have "(m(b \<mapsto> a)) a = None" using assms(1,3) by simp
  then have r: "reaches (m(b \<mapsto> a)) a a" by (rule reaches_rootI)
  have "(m(b \<mapsto> a)) b = Some a" by simp
  then have "reaches (m(b \<mapsto> a)) b a" using r by (rule reaches_stepI)
  with r show ?thesis unfolding same_root_def by blast
qed

lemma uf_step_ok:
  assumes "wf_forest m" "merges_ok (dom m) (c # cs)"
  shows "\<exists>m'. uf_step c m = Some m' \<and> wf_forest m' \<and> merges_ok (dom m') cs \<and>
           (\<forall>x y. same_root m x y \<longrightarrow> same_root m' x y)"
proof (cases c)
  case (Merge a b)
  with assms(2) have ab: "m a = None" "m b = None" "a \<noteq> b" and ok: "merges_ok (insert b (dom m)) cs"
    by (auto simp: domIff)
  have "wf_forest (m(b \<mapsto> a))" using assms(1) ab by (rule link_wf)
  moreover have "\<forall>x y. same_root m x y \<longrightarrow> same_root (m(b \<mapsto> a)) x y"
    using link_same[OF ab] by blast
  ultimately show ?thesis using Merge ok by simp
next
  case (GetRoot x)
  from assms(1) obtain r where "reaches m x r" by (auto simp: wf_forest_def)
  from getRoot_reaches[OF this] obtain m' where m': "getRoot m x = Some (r, m')" "keeps m m'"
    by blast
  then have "dom m' = dom m" by (simp add: keeps_def)
  moreover have "wf_forest m'" using m'(2) assms(1) by (rule keeps_wf)
  moreover have "\<forall>x y. same_root m x y \<longrightarrow> same_root m' x y"
    using m'(2) by (blast intro: keeps_same)
  ultimately show ?thesis using m'(1) assms(2) GetRoot by simp
qed

lemma uf_run_ok:
  assumes "wf_forest m" "merges_ok (dom m) cs"
  shows "\<exists>m'. uf_run cs m = Some m' \<and> wf_forest m' \<and>
           (\<forall>x y. same_root m x y \<longrightarrow> same_root m' x y)"
  using assms
proof (induction cs arbitrary: m)
  case Nil
  then show ?case by simp
next
  case (Cons c cs)
  from uf_step_ok[OF Cons.prems] obtain m1 where
    m1: "uf_step c m = Some m1" "wf_forest m1" "merges_ok (dom m1) cs"
        "\<forall>x y. same_root m x y \<longrightarrow> same_root m1 x y"
    by blast
  from Cons.IH[OF m1(2,3)] obtain m' where
    "uf_run cs m1 = Some m'" "wf_forest m'" "\<forall>x y. same_root m1 x y \<longrightarrow> same_root m' x y"
    by blast
  with m1 show ?case by auto
qed

lemma uf_run_append_ok:
  assumes "wf_forest m" "merges_ok (dom m) (cs @ ds)"
  shows "\<exists>m1. uf_run cs m = Some m1 \<and> wf_forest m1 \<and> merges_ok (dom m1) ds \<and>
           uf_run (cs @ ds) m = uf_run ds m1"
  using assms
proof (induction cs arbitrary: m)
  case Nil
  then show ?case by simp
next
  case (Cons c cs)
  from uf_step_ok[of m c "cs @ ds"] Cons.prems obtain m1 where
    m1: "uf_step c m = Some m1" "wf_forest m1" "merges_ok (dom m1) (cs @ ds)"
    by auto
  from Cons.IH[OF m1(2,3)] m1(1) show ?case by auto
qed

lemma wf_forest_empty: "wf_forest Map.empty"
  by (auto simp: wf_forest_def intro: reaches_rootI)

text \<open>
  Claim C7. Take any sequence of merges and \<^verbatim>\<open>getRoot\<close> calls on a fresh forest in which
  every merge absorbs a current root \<open>b\<close> into a different current root \<open>a\<close> (the regions
  of the engine are the current roots). After a merge of \<open>b\<close> into \<open>a\<close> and any number
  \<open>ds\<close> of further such operations, \<^verbatim>\<open>getRoot(b)\<close> and \<^verbatim>\<open>getRoot(a)\<close> both return, with the
  same root, whether \<^verbatim>\<open>getRoot(a)\<close> is called on the same forest or on the one that
  \<^verbatim>\<open>getRoot(b)\<close> has compressed; \<open>ds = []\<close> is the state immediately after the merge.
\<close>

theorem getRoot_after_merge:
  assumes "merges_ok {} (cs @ Merge a b # ds)"
  shows "\<exists>m r m1 m2 m3. uf_run (cs @ Merge a b # ds) Map.empty = Some m \<and>
           getRoot m b = Some (r, m1) \<and> getRoot m a = Some (r, m2) \<and>
           getRoot m1 a = Some (r, m3)"
proof -
  have e: "merges_ok (dom (Map.empty :: RootPaths)) (cs @ Merge a b # ds)"
    using assms by simp
  from uf_run_append_ok[OF wf_forest_empty e] obtain m0 where
    m0: "uf_run cs Map.empty = Some m0" "wf_forest m0" "merges_ok (dom m0) (Merge a b # ds)"
        "uf_run (cs @ Merge a b # ds) Map.empty = uf_run (Merge a b # ds) m0"
    by blast
  from m0(3) have ab: "m0 a = None" "m0 b = None" "a \<noteq> b"
    by (simp_all add: domIff)
  from m0(3) have ok: "merges_ok (dom (m0(b \<mapsto> a))) ds"
    by simp
  have wf1: "wf_forest (m0(b \<mapsto> a))" using m0(2) ab by (rule link_wf)
  have j: "same_root (m0(b \<mapsto> a)) b a" using ab by (rule link_joins)
  from uf_run_ok[OF wf1 ok] j obtain m where
    m: "uf_run ds (m0(b \<mapsto> a)) = Some m" "wf_forest m" "same_root m b a"
    by blast
  from m(3) obtain r where r: "reaches m b r" "reaches m a r" by (auto simp: same_root_def)
  from getRoot_reaches[OF r(1)] obtain m1 where m1: "getRoot m b = Some (r, m1)" "keeps m m1"
    by blast
  from getRoot_reaches[OF r(2)] obtain m2 where m2: "getRoot m a = Some (r, m2)" by blast
  have "reaches m1 a r" using m1(2) r(2) by (rule keepsD)
  from getRoot_reaches[OF this] obtain m3 where m3: "getRoot m1 a = Some (r, m3)" by blast
  from m0(4) m(1) have "uf_run (cs @ Merge a b # ds) Map.empty = Some m" by simp
  with m1(1) m2 m3 show ?thesis by blast
qed


theorem getRoot_after_merge_witness:
  "merges_ok {} ([Merge 1 2] @ Merge 3 4 # [Merge 1 3, GetRoot 4]) \<and>
   (\<exists>m r m1 m2 m3.
      uf_run ([Merge 1 2] @ Merge 3 4 # [Merge 1 3, GetRoot 4]) Map.empty = Some m \<and>
      getRoot m 4 = Some (r, m1) \<and> getRoot m 3 = Some (r, m2) \<and> getRoot m1 3 = Some (r, m3))"
  using getRoot_after_merge[of "[Merge 1 2]" 3 4 "[Merge 1 3, GetRoot 4]"] by simp

lemma keeps_dom: "keeps m m' \<Longrightarrow> dom m' = dom m"
  by (simp add: keeps_def)

lemma extractSegmentation_ok:
  assumes "wf_forest m"
  shows "\<exists>rs m'. extractSegmentation m xs = Some (rs, m') \<and> keeps m m' \<and> (\<forall>r \<in> set rs. m r = None)"
  using assms
proof (induction xs arbitrary: m)
  case Nil
  then show ?case by (simp add: keeps_refl)
next
  case (Cons x xs)
  from Cons.prems obtain r where r: "reaches m x r" unfolding wf_forest_def by blast
  from getRoot_reaches[OF r] obtain m1 where m1: "getRoot m x = Some (r, m1)" "keeps m m1"
    by blast
  have "wf_forest m1" using m1(2) Cons.prems by (rule keeps_wf)
  from Cons.IH[OF this] obtain rs m2 where
    rs: "extractSegmentation m1 xs = Some (rs, m2)" "keeps m1 m2" "\<forall>r \<in> set rs. m1 r = None"
    by blast
  have d: "dom m1 = dom m" using m1(2) by (rule keeps_dom)
  have "\<forall>r \<in> set rs. m r = None"
  proof
    fix q assume "q \<in> set rs"
    with rs(3) have "q \<notin> dom m1" by (simp add: domIff)
    with d have "q \<notin> dom m" by simp
    then show "m q = None" by (simp add: domIff)
  qed
  moreover have "m r = None" using r by (rule reaches_root)
  moreover have "keeps m m2" using m1(2) rs(2) by (rule keeps_trans)
  ultimately show ?case using m1(1) rs(1) by simp
qed

lemma extractSegmentation_roots:
  "\<forall>r \<in> set rs. m r = None \<Longrightarrow> extractSegmentation m rs = Some (rs, m)"
  by (induction rs) (simp_all add: getRoot_root)

lemma uf_run_wf:
  assumes "merges_ok {} cs"
  shows "\<exists>m. uf_run cs Map.empty = Some m \<and> wf_forest m"
proof -
  have "merges_ok (dom (Map.empty :: RootPaths)) cs" using assms by simp
  from uf_run_ok[OF wf_forest_empty this] show ?thesis by blast
qed

text \<open>
  Claim C8. On every forest that merges of distinct current roots (and \<^verbatim>\<open>getRoot\<close> calls)
  build from the fresh one, \<^verbatim>\<open>extractSegmentation\<close> returns for every volume \<open>seg\<close>, and a
  second application to its result changes neither the volume nor the forest.
\<close>

theorem extractSegmentation_idempotent:
  assumes "merges_ok {} cs"
  shows "\<exists>m seg' m'. uf_run cs Map.empty = Some m \<and>
           extractSegmentation m seg = Some (seg', m') \<and>
           extractSegmentation m' seg' = Some (seg', m')"
proof -
  from uf_run_wf[OF assms] obtain m where m: "uf_run cs Map.empty = Some m" "wf_forest m"
    by blast
  from extractSegmentation_ok[OF m(2), of seg] obtain seg' m' where
    e: "extractSegmentation m seg = Some (seg', m')" "keeps m m'" "\<forall>r \<in> set seg'. m r = None"
    by blast
  have d: "dom m' = dom m" using e(2) by (rule keeps_dom)
  have "\<forall>r \<in> set seg'. m' r = None"
  proof
    fix q assume "q \<in> set seg'"
    with e(3) have "q \<notin> dom m" by (simp add: domIff)
    with d have "q \<notin> dom m'" by simp
    then show "m' q = None" by (simp add: domIff)
  qed
  then have "extractSegmentation m' seg' = Some (seg', m')" by (rule extractSegmentation_roots)
  with m(1) e(1) show ?thesis by blast
qed

theorem extractSegmentation_idempotent_witness:
  "merges_ok {} [Merge 1 2, Merge 3 4, Merge 1 3] \<and>
   (\<exists>m seg' m'. uf_run [Merge 1 2, Merge 3 4, Merge 1 3] Map.empty = Some m \<and>
      extractSegmentation m [4, 2, 1, 7, 4] = Some (seg', m') \<and>
      extractSegmentation m' seg' = Some (seg', m'))"
  using extractSegmentation_idempotent[of "[Merge 1 2, Merge 3 4, Merge 1 3]" "[4, 2, 1, 7, 4]"]
  by simp

lemma getRoot_example:
  "getRoot [2 \<mapsto> 1, 4 \<mapsto> 3, 3 \<mapsto> 1] 4 = Some (1, [2 \<mapsto> 1, 4 \<mapsto> 1, 3 \<mapsto> 1])"
  by (simp add: getRoot_def isRoot_def walkUp.simps compressPath.simps fun_upd_twist)

section \<open>Region graph (RegionGraph.hpp)\<close>

text \<open>
  Modelled from the spec: \<^verbatim>\<open>RegionGraph.hpp\<close> is not among the sources. The spec requires
  ``stable dense edge ids; edge count; endpoint lookup by edge id; incident-edge enumeration
  per node; opposite-endpoint lookup; edge lookup between two nodes (with a defined "no
  edge" sentinel); edge relocation between endpoints; edge removal''. The model keeps the
  endpoints \<open>(u, v)\<close> of every edge id and, per node id, the list of incident edge ids.
  The sentinel \<^verbatim>\<open>NoEdge\<close> is \<open>None\<close>. Removing an edge takes it out of the incidence lists
  and keeps its id; relocating it removes it and attaches it to the new endpoints.
\<close>

record RegionGraph =
  edges :: "(nat \<times> nat) list"
  incTable :: "nat list list"

definition edge :: "RegionGraph \<Rightarrow> nat \<Rightarrow> nat \<times> nat" where
  "edge g e = edges g ! e"

definition incEdges :: "RegionGraph \<Rightarrow> nat \<Rightarrow> nat list" where
  "incEdges g n = (if n < length (incTable g) then incTable g ! n else [])"

definition getOpposite :: "RegionGraph \<Rightarrow> nat \<Rightarrow> nat \<Rightarrow> nat" where
  "getOpposite g n e = (if fst (edge g e) = n then snd (edge g e) else fst (edge g e))"

definition findEdge :: "RegionGraph \<Rightarrow> nat \<Rightarrow> nat \<Rightarrow> nat option" where
  "findEdge g u v = find (\<lambda>e. getOpposite g u e = v) (incEdges g u)"

definition removeIncEdge :: "nat \<Rightarrow> nat \<Rightarrow> RegionGraph \<Rightarrow> RegionGraph" where
  "removeIncEdge n e g = g\<lparr>incTable := (incTable g)[n := removeAll e (incEdges g n)]\<rparr>"

definition addIncEdge :: "nat \<Rightarrow> nat \<Rightarrow> RegionGraph \<Rightarrow> RegionGraph" where
  "addIncEdge n e g = g\<lparr>incTable := (incTable g)[n := incEdges g n @ [e]]\<rparr>"

definition removeEdge :: "RegionGraph \<Rightarrow> nat \<Rightarrow> RegionGraph" where
  "removeEdge g e = removeIncEdge (snd (edge g e)) e (removeIncEdge (fst (edge g e)) e g)"

definition moveEdge :: "RegionGraph \<Rightarrow> nat \<Rightarrow> nat \<Rightarrow> nat \<Rightarrow> RegionGraph" where
  "moveEdge g e u v =
     (let g1 = removeEdge g e;
          g2 = g1\<lparr>edges := (edges g1)[e := (u, v)]\<rparr>
      in addIncEdge v e (addIncEdge u e g2))"

text \<open>Every incidence list names edges of the graph.\<close>

definition wf_graph :: "RegionGraph \<Rightarrow> bool" where
  "wf_graph g = list_all (list_all (\<lambda>e. e < length (edges g))) (incTable g)"

section \<open>Iterative region merging (IterativeRegionMerging.hpp)\<close>

text \<open>
  The scoring function is a template argument with three operations: the call operator,
  \<^verbatim>\<open>notifyNodeMerge\<close> and \<^verbatim>\<open>notifyEdgeMerge\<close>. It is an object with state of its own, passed
  by reference to every call; the model keeps the state in the field \<open>scoringFn\<close> of the
  engine and the operations in a record of functions.
\<close>

record 'f EdgeScoringFunction =
  scoreOf :: "nat \<Rightarrow> 'f \<Rightarrow> real \<times> 'f"
  notifyNodeMerge :: "nat \<Rightarrow> nat \<Rightarrow> 'f \<Rightarrow> 'f"
  notifyEdgeMerge :: "nat \<Rightarrow> nat \<Rightarrow> 'f \<Rightarrow> 'f"

text \<open>
  The engine. \<^verbatim>\<open>ScoreType\<close> is modelled by the reals, the three \<^verbatim>\<open>EdgeMap\<close>s by total
  functions on edge ids (see the provider above), \<^verbatim>\<open>std::map _rootPaths\<close> by a partial
  function.

  \<^verbatim>\<open>std::priority_queue<EdgeIdType, std::vector<EdgeIdType>, EdgeCompare>\<close> is the standard
  library's: \<^verbatim>\<open>top()\<close> is an element that the comparison puts before no other element of the
  queue. The model keeps the queued edge ids in a list and selects that element. It agrees
  with the heap as long as the score of an edge does not change while the edge is queued.
\<close>

record 'f Engine =
  regionGraph :: RegionGraph
  edgeScores :: "nat \<Rightarrow> real"
  deleted :: "nat \<Rightarrow> bool"
  stale :: "nat \<Rightarrow> bool"
  edgeQueue :: "nat list"
  rootPaths :: RootPaths
  mergedUntil :: real
  scoringFn :: 'f

text \<open>
  The two kinds of \<^verbatim>\<open>assert\<close> of the engine, which abort the program when they fail:
  \<^verbatim>\<open>assert(newScore >= score)\<close> in \<^verbatim>\<open>mergeUntil\<close> and
  \<^verbatim>\<open>assert(_regionGraph.findEdge(a, neighbor) == neighborEdge)\<close> in \<^verbatim>\<open>mergeRegions\<close>.
\<close>

datatype engine_error = AssertNewScore | AssertFindEdge

text \<open>
  Modelled from the spec: the constructor of \<^verbatim>\<open>EdgeMap\<close> (in the absent \<^verbatim>\<open>RegionGraph.hpp\<close>)
  is not among the sources; a map built from the graph holds the default value of its
  element type for every edge. The queue and the forest start empty, \<^verbatim>\<open>_mergedUntil(0)\<close>.
\<close>

definition IterativeRegionMerging_init :: "RegionGraph \<Rightarrow> 'f \<Rightarrow> 'f Engine" where
  "IterativeRegionMerging_init initialRegionGraph f =
     \<lparr>regionGraph = initialRegionGraph, edgeScores = (\<lambda>e. 0), deleted = (\<lambda>e. False),
      stale = (\<lambda>e. False), edgeQueue = [], rootPaths = Map.empty, mergedUntil = 0,
      scoringFn = f\<rparr>"

text \<open>\<^verbatim>\<open>EdgeCompare::operator()\<close> over the score map it refers to, and the queue: \<open>pq_top\<close>
  selects the element that the comparison puts before no other one, \<open>None\<close> when
  \<^verbatim>\<open>size() == 0\<close>.\<close>

definition EdgeCompare :: "(nat \<Rightarrow> real) \<Rightarrow> nat \<Rightarrow> nat \<Rightarrow> bool" where
  "EdgeCompare es a b = (if es a = es b then a > b else es a > es b)"

fun pq_top :: "(nat \<Rightarrow> nat \<Rightarrow> bool) \<Rightarrow> nat list \<Rightarrow> nat option" where
  "pq_top cmp [] = None"
| "pq_top cmp (x # xs) =
     (case pq_top cmp xs of
        None \<Rightarrow> Some x
      | Some m \<Rightarrow> if cmp x m then Some m else Some x)"

definition pq_pop :: "(nat \<Rightarrow> nat \<Rightarrow> bool) \<Rightarrow> nat list \<Rightarrow> nat list" where
  "pq_pop cmp q = (case pq_top cmp q of None \<Rightarrow> q | Some m \<Rightarrow> remove1 m q)"

definition pq_push :: "nat \<Rightarrow> nat list \<Rightarrow> nat list" where
  "pq_push e q = e # q"

definition scoreEdge :: "'f EdgeScoringFunction \<Rightarrow> nat \<Rightarrow> 'f Engine \<Rightarrow> real \<times> 'f Engine" where
  "scoreEdge fn e s =
     (let (score, f') = scoreOf fn e (scoringFn s) in
      (score, s\<lparr>scoringFn := f',
                edgeScores := (edgeScores s)(e := score),
                edgeQueue := pq_push e (edgeQueue s)\<rparr>))"

text \<open>A loop over a list whose body may abort.\<close>

fun forEach :: "('a \<Rightarrow> 's \<Rightarrow> engine_error + 's) \<Rightarrow> 'a list \<Rightarrow> 's \<Rightarrow> engine_error + 's" where
  "forEach body [] s = Inr s"
| "forEach body (x # xs) s =
     (case body x s of Inl err \<Rightarrow> Inl err | Inr s' \<Rightarrow> forEach body xs s')"

text \<open>The body of the loop of \<^verbatim>\<open>mergeRegions\<close> over the edges incident to \<open>b\<close>.\<close>

definition mergeNeighborEdge ::
  "'f EdgeScoringFunction \<Rightarrow> nat \<Rightarrow> nat \<Rightarrow> nat \<Rightarrow> nat \<Rightarrow> 'f Engine \<Rightarrow> engine_error + 'f Engine" where
  "mergeNeighborEdge fn e a b neighborEdge s =
     (if neighborEdge = e then Inr s
      else
        let neighbor = getOpposite (regionGraph s) b neighborEdge in
        (case findEdge (regionGraph s) a neighbor of
           None \<Rightarrow>
             (let g' = moveEdge (regionGraph s) neighborEdge a neighbor in
              if findEdge g' a neighbor = Some neighborEdge then
                Inr (s\<lparr>regionGraph := g', stale := (stale s)(neighborEdge := True)\<rparr>)
              else Inl AssertFindEdge)
         | Some aNeighborEdge \<Rightarrow>
             if edgeScores s neighborEdge > edgeScores s aNeighborEdge then
               Inr (s\<lparr>scoringFn := notifyEdgeMerge fn neighborEdge aNeighborEdge (scoringFn s),
                      deleted := (deleted s)(neighborEdge := True)\<rparr>)
             else
               (let f' = notifyEdgeMerge fn aNeighborEdge neighborEdge (scoringFn s);
                    g' = moveEdge (removeEdge (regionGraph s) aNeighborEdge) neighborEdge a neighbor
                in
                if findEdge g' a neighbor = Some neighborEdge then
                  Inr (s\<lparr>scoringFn := f', regionGraph := g',
                         stale := (stale s)(neighborEdge := True),
                         deleted := (deleted s)(aNeighborEdge := True)\<rparr>)
                else Inl AssertFindEdge)))"

text \<open>\<^verbatim>\<open>for (EdgeIdType neighborEdge : _regionGraph.incEdges(a)) _stale[neighborEdge] = true;\<close>\<close>

definition markStale :: "nat list \<Rightarrow> 'f Engine \<Rightarrow> 'f Engine" where
  "markStale es s = foldl (\<lambda>s neighborEdge. s\<lparr>stale := (stale s)(neighborEdge := True)\<rparr>) s es"

definition mergeRegions :: "'f EdgeScoringFunction \<Rightarrow> nat \<Rightarrow> 'f Engine \<Rightarrow> engine_error + 'f Engine" where
  "mergeRegions fn e s =
     (let a = fst (edge (regionGraph s) e);
          b = snd (edge (regionGraph s) e);
          s1 = s\<lparr>scoringFn := notifyNodeMerge fn b a (scoringFn s)\<rparr>;
          s2 = s1\<lparr>rootPaths := (rootPaths s1)(b \<mapsto> a)\<rparr>;
          s3 = markStale (incEdges (regionGraph s2) a) s2;
          neighborEdges = incEdges (regionGraph s3) b
      in forEach (mergeNeighborEdge fn e a b) neighborEdges s3)"

text \<open>One round of the loop of \<^verbatim>\<open>mergeUntil\<close>, after the threshold test: the edge \<open>next\<close>
  is popped, then discarded, rescored or merged.\<close>

definition loopBody :: "'f EdgeScoringFunction \<Rightarrow> nat \<Rightarrow> 'f Engine \<Rightarrow> engine_error + 'f Engine" where
  "loopBody fn next s =
     (let score = edgeScores s next;
          s1 = s\<lparr>edgeQueue := pq_pop (EdgeCompare (edgeScores s)) (edgeQueue s)\<rparr>
      in
      if deleted s1 next then Inr s1
      else if stale s1 next then
        (let (newScore, s2) = scoreEdge fn next s1;
             s3 = s2\<lparr>stale := (stale s2)(next := False)\<rparr>
         in if newScore \<ge> score then Inr s3 else Inl AssertNewScore)
      else mergeRegions fn next s1)"

lemma pq_top_mem: "pq_top cmp q = Some m \<Longrightarrow> m \<in> set q"
  by (induction q arbitrary: m) (auto split: option.splits if_splits)

lemma forEach_queue:
  assumes "\<And>x s s'. body x s = Inr s' \<Longrightarrow> edgeQueue s' = edgeQueue s"
  shows "forEach body xs s = Inr s' \<Longrightarrow> edgeQueue s' = edgeQueue s"
proof (induction xs arbitrary: s)
  case Nil
  then show ?case by simp
next
  case (Cons x xs)
  then obtain s1 where s1: "body x s = Inr s1" "forEach body xs s1 = Inr s'"
    by (auto split: sum.splits)
  from Cons.IH[OF s1(2)] assms[OF s1(1)] show ?case by simp
qed

lemma mergeNeighborEdge_queue:
  "mergeNeighborEdge fn e a b ne s = Inr s' \<Longrightarrow> edgeQueue s' = edgeQueue s"
  by (auto simp: mergeNeighborEdge_def Let_def split: if_splits option.splits)

lemma markStale_queue [simp]: "edgeQueue (markStale es s) = edgeQueue s"
proof -
  have "edgeQueue (foldl (\<lambda>s ne. s\<lparr>stale := (stale s)(ne := True)\<rparr>) s es) = edgeQueue s"
    by (induction es arbitrary: s) simp_all
  then show ?thesis by (simp add: markStale_def)
qed

lemma mergeRegions_queue:
  assumes "mergeRegions fn e s = Inr s'"
  shows "edgeQueue s' = edgeQueue s"
proof -
  let ?a = "fst (edge (regionGraph s) e)" and ?b = "snd (edge (regionGraph s) e)"
  let ?s2 = "s\<lparr>scoringFn := notifyNodeMerge fn ?b ?a (scoringFn s),
                rootPaths := (rootPaths s)(?b \<mapsto> ?a)\<rparr>"
  let ?s3 = "markStale (incEdges (regionGraph ?s2) ?a) ?s2"
  from assms have "forEach (mergeNeighborEdge fn e ?a ?b) (incEdges (regionGraph ?s3) ?b) ?s3 = Inr s'"
    by (simp add: mergeRegions_def Let_def)
  then have "edgeQueue s' = edgeQueue ?s3"
    by (rule forEach_queue[rotated]) (rule mergeNeighborEdge_queue)
  then show ?thesis by simp
qed

text \<open>The only change of the forest in a round of the loop is the assignment
  \<^verbatim>\<open>_rootPaths[b] = a\<close> of \<^verbatim>\<open>mergeRegions\<close>, the operation \<open>Merge a b\<close> above.\<close>

lemma forEach_rootPaths:
  assumes "\<And>x s s'. body x s = Inr s' \<Longrightarrow> rootPaths s' = rootPaths s"
  shows "forEach body xs s = Inr s' \<Longrightarrow> rootPaths s' = rootPaths s"
proof (induction xs arbitrary: s)
  case Nil
  then show ?case by simp
next
  case (Cons x xs)
  then obtain s1 where s1: "body x s = Inr s1" "forEach body xs s1 = Inr s'"
    by (auto split: sum.splits)
  from Cons.IH[OF s1(2)] assms[OF s1(1)] show ?case by simp
qed

lemma mergeNeighborEdge_rootPaths:
  "mergeNeighborEdge fn e a b ne s = Inr s' \<Longrightarrow> rootPaths s' = rootPaths s"
  by (auto simp: mergeNeighborEdge_def Let_def split: if_splits option.splits)

lemma markStale_rootPaths [simp]: "rootPaths (markStale es s) = rootPaths s"
  unfolding markStale_def by (induction es arbitrary: s) simp_all

lemma mergeRegions_rootPaths:
  assumes "mergeRegions fn e s = Inr s'"
  shows "rootPaths s' = (rootPaths s)(snd (edge (regionGraph s) e) \<mapsto> fst (edge (regionGraph s) e))"
proof -
  let ?a = "fst (edge (regionGraph s) e)" and ?b = "snd (edge (regionGraph s) e)"
  let ?s2 = "s\<lparr>scoringFn := notifyNodeMerge fn ?b ?a (scoringFn s),
                rootPaths := (rootPaths s)(?b \<mapsto> ?a)\<rparr>"
  let ?s3 = "markStale (incEdges (regionGraph ?s2) ?a) ?s2"
  from assms have "forEach (mergeNeighborEdge fn e ?a ?b) (incEdges (regionGraph ?s3) ?b) ?s3 = Inr s'"
    by (simp add: mergeRegions_def Let_def)
  then have "rootPaths s' = rootPaths ?s3"
    by (rule forEach_rootPaths[rotated]) (rule mergeNeighborEdge_rootPaths)
  then show ?thesis by simp
qed

lemma loopBody_rootPaths:
  assumes "loopBody fn x s = Inr s'"
  shows "rootPaths s' = rootPaths s \<or>
         rootPaths s' = (rootPaths s)(snd (edge (regionGraph s) x) \<mapsto> fst (edge (regionGraph s) x))"
proof (cases "deleted s x \<or> stale s x")
  case True
  with assms show ?thesis
    by (auto simp: loopBody_def Let_def scoreEdge_def split_def split: if_splits)
next
  case False
  with assms have "mergeRegions fn x (s\<lparr>edgeQueue := pq_pop (EdgeCompare (edgeScores s)) (edgeQueue s)\<rparr>) = Inr s'"
    by (simp add: loopBody_def Let_def)
  from mergeRegions_rootPaths[OF this] show ?thesis by simp
qed

text \<open>The number of queued edges (with repetitions) whose stale flag is set.\<close>

definition staleQueued :: "'f Engine \<Rightarrow> nat" where
  "staleQueued s = length (filter (stale s) (edgeQueue s))"

lemma filter_remove1_length:
  "x \<in> set xs \<Longrightarrow> P x \<Longrightarrow> Suc (length (filter P (remove1 x xs))) = length (filter P xs)"
  by (induction xs) auto

lemma filter_upd_False_le:
  "length (filter (P(x := False)) xs) \<le> length (filter P xs)"
  by (induction xs) auto

lemma loopBody_decreases:
  assumes "pq_top (EdgeCompare (edgeScores s)) (edgeQueue s) = Some next"
    and "loopBody fn next s = Inr s'"
  shows "length (edgeQueue s') < length (edgeQueue s) \<or>
         (length (edgeQueue s') = length (edgeQueue s) \<and> staleQueued s' < staleQueued s)"
proof -
  let ?q = "edgeQueue s"
  let ?s1 = "s\<lparr>edgeQueue := pq_pop (EdgeCompare (edgeScores s)) ?q\<rparr>"
  have mem: "next \<in> set ?q" using assms(1) by (rule pq_top_mem)
  have q1: "edgeQueue ?s1 = remove1 next ?q" using assms(1) by (simp add: pq_pop_def)
  have len1: "Suc (length (remove1 next ?q)) = length ?q"
    using mem by (simp add: length_remove1) (cases ?q, auto)
  show ?thesis
  proof (cases "deleted s next")
    case True
    with assms(2) have "s' = ?s1" by (simp add: loopBody_def Let_def)
    with q1 len1 show ?thesis by simp
  next
    case nd: False
    show ?thesis
    proof (cases "stale s next")
      case True
      obtain sc f' where sf: "scoreOf fn next (scoringFn s) = (sc, f')" by (cases "scoreOf fn next (scoringFn s)")
      from assms(2) nd True sf have s': "edgeQueue s' = next # remove1 next ?q"
        "stale s' = (stale s)(next := False)"
        by (auto simp: loopBody_def Let_def scoreEdge_def pq_push_def q1 split: if_splits)
      have "length (filter ((stale s)(next := False)) (remove1 next ?q))
            \<le> length (filter (stale s) (remove1 next ?q))"
        by (rule filter_upd_False_le)
      moreover have "Suc (length (filter (stale s) (remove1 next ?q))) = length (filter (stale s) ?q)"
        using mem True by (rule filter_remove1_length)
      ultimately have "staleQueued s' < staleQueued s"
        using s' by (simp add: staleQueued_def)
      with s' len1 show ?thesis by simp
    next
      case False
      with assms(2) nd have "mergeRegions fn next ?s1 = Inr s'"
        by (simp add: loopBody_def Let_def)
      then have "edgeQueue s' = edgeQueue ?s1" by (rule mergeRegions_queue)
      with q1 len1 show ?thesis by simp
    qed
  qed
qed

text \<open>The loop \<^verbatim>\<open>while (_edgeQueue.size() > 0)\<close> of \<^verbatim>\<open>mergeUntil\<close>. It ends on every state:
  a round shortens the queue, or keeps its length and clears the stale flag of a queued
  edge.\<close>

function mergeLoop :: "'f EdgeScoringFunction \<Rightarrow> real \<Rightarrow> 'f Engine \<Rightarrow> engine_error + 'f Engine" where
  "mergeLoop fn threshold s =
     (case pq_top (EdgeCompare (edgeScores s)) (edgeQueue s) of
        None \<Rightarrow> Inr s
      | Some next \<Rightarrow>
          if edgeScores s next \<ge> threshold then Inr s
          else (case loopBody fn next s of
                  Inl err \<Rightarrow> Inl err
                | Inr s' \<Rightarrow> mergeLoop fn threshold s'))"
  by pat_completeness auto
termination
  apply (relation "measures [\<lambda>(fn, threshold, s). length (edgeQueue s),
                             \<lambda>(fn, threshold, s). staleQueued s]")
  subgoal by simp
  subgoal for fn threshold s x s'
    using loopBody_decreases[of s x fn s'] by auto
  done

declare mergeLoop.simps [simp del]

text \<open>The seed phase,
  \<^verbatim>\<open>for (EdgeIdType e = 0; e < _regionGraph.edges().size(); e++) scoreEdge(e, edgeScoringFunction);\<close>
  and \<^verbatim>\<open>mergeUntil\<close>.\<close>

definition seedScores :: "'f EdgeScoringFunction \<Rightarrow> 'f Engine \<Rightarrow> 'f Engine" where
  "seedScores fn s =
     foldl (\<lambda>s e. snd (scoreEdge fn e s)) s [0..<length (edges (regionGraph s))]"

definition mergeUntil :: "'f EdgeScoringFunction \<Rightarrow> real \<Rightarrow> 'f Engine \<Rightarrow> engine_error + 'f Engine" where
  "mergeUntil fn threshold s =
     (if threshold \<le> mergedUntil s then Inr s
      else
        let s1 = (if mergedUntil s = 0 then seedScores fn s else s) in
        (case mergeLoop fn threshold s1 of
           Inl err \<Rightarrow> Inl err
         | Inr s2 \<Rightarrow> Inr (s2\<lparr>mergedUntil := threshold\<rparr>)))"


subsection \<open>The priority queue\<close>

lemma EdgeCompare_irrefl: "\<not> EdgeCompare es a a"
  by (simp add: EdgeCompare_def)

lemma EdgeCompare_negtrans:
  "\<not> EdgeCompare es a b \<Longrightarrow> \<not> EdgeCompare es b c \<Longrightarrow> \<not> EdgeCompare es a c"
  by (auto simp: EdgeCompare_def split: if_splits)

lemma EdgeCompare_asym: "EdgeCompare es a b \<Longrightarrow> \<not> EdgeCompare es b a"
  by (auto simp: EdgeCompare_def split: if_splits)

lemma pq_top_None: "pq_top cmp q = None \<longleftrightarrow> q = []"
  by (cases q) (auto split: option.splits)

lemma pq_top_greatest:
  "pq_top (EdgeCompare es) q = Some m \<Longrightarrow> y \<in> set q \<Longrightarrow> \<not> EdgeCompare es m y"
proof (induction q arbitrary: m y)
  case Nil
  then show ?case by simp
next
  case (Cons x xs)
  show ?case
  proof (cases "pq_top (EdgeCompare es) xs")
    case None
    then have "xs = []" by (simp add: pq_top_None)
    with Cons.prems None show ?thesis by (simp add: EdgeCompare_irrefl)
  next
    case (Some m')
    have ih: "\<And>z. z \<in> set xs \<Longrightarrow> \<not> EdgeCompare es m' z"
      using Cons.IH[OF Some] by blast
    show ?thesis
    proof (cases "EdgeCompare es x m'")
      case True
      with Some Cons.prems(1) have m: "m = m'" by simp
      from True have "\<not> EdgeCompare es m' x" by (rule EdgeCompare_asym)
      with ih Cons.prems(2) m show ?thesis by auto
    next
      case False
      with Some Cons.prems(1) have m: "m = x" by simp
      have "\<not> EdgeCompare es x z" if "z \<in> set xs" for z
        using False ih[OF that] by (rule EdgeCompare_negtrans)
      with Cons.prems(2) m show ?thesis by (auto simp: EdgeCompare_irrefl)
    qed
  qed
qed

text \<open>
  Claim C10. Whenever two queued edges \<open>a < b\<close> have equal cached scores, \<open>b\<close> is not the
  top of the queue: the queue has a top, it is at most as expensive as \<open>a\<close>, and among edges
  of that score it has the smallest id, so \<open>a\<close> is popped before \<open>b\<close>.
\<close>

theorem equal_scores_smaller_id_first:
  assumes "a \<in> set q" "b \<in> set q" "es a = es b" "a < b"
  shows "\<exists>m. pq_top (EdgeCompare es) q = Some m \<and> m \<noteq> b \<and>
           (es m < es a \<or> (es m = es a \<and> m \<le> a))"
proof -
  from assms(1) have "q \<noteq> []" by auto
  then obtain m where m: "pq_top (EdgeCompare es) q = Some m"
    using pq_top_None[of "EdgeCompare es" q] by (cases "pq_top (EdgeCompare es) q") auto
  from pq_top_greatest[OF m assms(1)] have a: "es m < es a \<or> (es m = es a \<and> m \<le> a)"
    by (auto simp: EdgeCompare_def split: if_splits)
  with assms(3,4) have "m \<noteq> b" by auto
  with m a show ?thesis by blast
qed

theorem equal_scores_smaller_id_first_witness:
  "(1::nat) \<in> set [2, 1, 0] \<and> (2::nat) \<in> set [2, 1, 0] \<and>
   pq_top (EdgeCompare (\<lambda>e. if e = 0 then 3/4 else 1/2)) [2, 1, 0] = Some 1"
  using equal_scores_smaller_id_first[of 1 "[2, 1, 0]" 2 "\<lambda>e. if e = 0 then 3/4 else 1/2"]
  by (simp add: EdgeCompare_def)

subsection \<open>Collapsing parallel edges\<close>

text \<open>
  Claim C1, as amended. In the merge step, when the absorbed region \<open>b\<close> shares a neighbor
  with the surviving region \<open>a\<close>, so that \<^verbatim>\<open>neighborEdge\<close> (of \<open>b\<close>) and \<^verbatim>\<open>aNeighborEdge\<close> (of
  \<open>a\<close>) are parallel: if the cached score of \<^verbatim>\<open>neighborEdge\<close> is strictly greater, \<open>a\<close>'s edge
  survives, \<^verbatim>\<open>neighborEdge\<close> is soft-deleted and its statistics are merged into \<open>a\<close>'s edge;
  otherwise, also when the two scores are equal, \<^verbatim>\<open>neighborEdge\<close> survives (relocated to
  \<open>a\<close> and marked stale), \<open>a\<close>'s pre-existing edge is removed and soft-deleted and its
  statistics are merged into \<^verbatim>\<open>neighborEdge\<close>.
\<close>

theorem parallel_edges_collapse:
  assumes "neighborEdge \<noteq> e"
    and "findEdge (regionGraph s) a (getOpposite (regionGraph s) b neighborEdge) = Some aNeighborEdge"
    and "mergeNeighborEdge fn e a b neighborEdge s = Inr s'"
  shows "(edgeScores s neighborEdge > edgeScores s aNeighborEdge \<longrightarrow>
            deleted s' = (deleted s)(neighborEdge := True) \<and>
            scoringFn s' = notifyEdgeMerge fn neighborEdge aNeighborEdge (scoringFn s) \<and>
            regionGraph s' = regionGraph s \<and> stale s' = stale s)
       \<and> (edgeScores s neighborEdge \<le> edgeScores s aNeighborEdge \<longrightarrow>
            deleted s' = (deleted s)(aNeighborEdge := True) \<and>
            scoringFn s' = notifyEdgeMerge fn aNeighborEdge neighborEdge (scoringFn s) \<and>
            regionGraph s' =
              moveEdge (removeEdge (regionGraph s) aNeighborEdge) neighborEdge a
                (getOpposite (regionGraph s) b neighborEdge) \<and>
            stale s' = (stale s)(neighborEdge := True))"
  using assms by (auto simp: mergeNeighborEdge_def Let_def split: if_splits)

text \<open>A triangle: edge \<open>0\<close> joins the regions \<open>0\<close> and \<open>1\<close>, edge \<open>1\<close> joins \<open>1\<close> and \<open>2\<close>,
  edge \<open>2\<close> joins \<open>0\<close> and \<open>2\<close>; a scoring function without state.\<close>

definition triangle :: RegionGraph where
  "triangle = \<lparr>edges = [(0, 1), (1, 2), (0, 2)], incTable = [[0, 2], [0, 1], [1, 2]]\<rparr>"

definition constFn :: "real \<Rightarrow> unit EdgeScoringFunction" where
  "constFn c = \<lparr>scoreOf = (\<lambda>e f. (c, f)), notifyNodeMerge = (\<lambda>b a f. f),
                notifyEdgeMerge = (\<lambda>from to f. f)\<rparr>"


definition triangleState :: "real \<Rightarrow> real \<Rightarrow> unit Engine" where
  "triangleState x y =
     (IterativeRegionMerging_init triangle ())\<lparr>edgeScores := (\<lambda>e. if e = 1 then x else y)\<rparr>"

lemmas graph_simps = triangle_def edge_def incEdges_def getOpposite_def findEdge_def
  removeIncEdge_def addIncEdge_def removeEdge_def moveEdge_def

theorem parallel_edges_collapse_witness:
  "deleted (projr (mergeNeighborEdge (constFn 0) 0 0 1 1 (triangleState (7/10) (3/10))))
     = (deleted (triangleState (7/10) (3/10)))(1 := True)"
proof -
  let ?s = "triangleState (7/10) (3/10)"
  have f: "findEdge (regionGraph ?s) 0 (getOpposite (regionGraph ?s) 1 1) = Some 2"
    by (simp add: triangleState_def IterativeRegionMerging_init_def graph_simps)
  have "\<not> isl (mergeNeighborEdge (constFn 0) 0 0 1 1 ?s)"
    by (simp add: mergeNeighborEdge_def triangleState_def IterativeRegionMerging_init_def
        graph_simps)
  then have r: "mergeNeighborEdge (constFn 0) 0 0 1 1 ?s
                = Inr (projr (mergeNeighborEdge (constFn 0) 0 0 1 1 ?s))"
    by (cases "mergeNeighborEdge (constFn 0) 0 0 1 1 ?s") simp_all
  have "(1::nat) \<noteq> 0" by simp
  from parallel_edges_collapse[OF this f r] show ?thesis
    by (simp add: triangleState_def)
qed

text \<open>
  In the triangle with all cached scores equal, merging edge \<open>0\<close> (region \<open>1\<close> absorbed into
  region \<open>0\<close>) finds the shared neighbor \<open>2\<close>: edge \<open>2\<close>, the pre-existing edge of the
  survivor, is soft-deleted, and edge \<open>1\<close> of the absorbed region survives.
\<close>

theorem tie_discards_pre_existing_edge:
  "map_sum id (\<lambda>s'. (deleted s' 1, deleted s' 2))
     (mergeRegions (constFn (1/2)) 0 (triangleState (1/2) (1/2))) = Inr (False, True)"
  by (simp add: mergeRegions_def mergeNeighborEdge_def markStale_def triangleState_def
      IterativeRegionMerging_init_def constFn_def graph_simps)


subsection \<open>Resuming with a higher threshold\<close>

text \<open>The loop run to \<open>t1\<close> and then continued to \<open>t2 \<ge> t1\<close> is the loop run to \<open>t2\<close>.\<close>

lemma mergeLoop_resume:
  "t1 \<le> t2 \<Longrightarrow>
   (case mergeLoop fn t1 s of Inl err \<Rightarrow> Inl err | Inr s' \<Rightarrow> mergeLoop fn t2 s')
     = mergeLoop fn t2 s"
proof (induction fn t1 s rule: mergeLoop.induct)
  case (1 fn t1 s)
  show ?case
  proof (cases "pq_top (EdgeCompare (edgeScores s)) (edgeQueue s)")
    case None
    then have "mergeLoop fn t1 s = Inr s" by (subst mergeLoop.simps) simp
    then show ?thesis by simp
  next
    case (Some x)
    show ?thesis
    proof (cases "t1 \<le> edgeScores s x")
      case True
      with Some have "mergeLoop fn t1 s = Inr s" by (subst mergeLoop.simps) simp
      then show ?thesis by simp
    next
      case False
      with 1(2) have nt2: "\<not> t2 \<le> edgeScores s x" by simp
      show ?thesis
      proof (cases "loopBody fn x s")
        case (Inl err)
        with Some False have "mergeLoop fn t1 s = Inl err" by (subst mergeLoop.simps) simp
        moreover from Inl Some nt2 have "mergeLoop fn t2 s = Inl err"
          by (subst mergeLoop.simps) simp
        ultimately show ?thesis by simp
      next
        case (Inr s1)
        with Some False have a: "mergeLoop fn t1 s = mergeLoop fn t1 s1"
          by (subst mergeLoop.simps) simp
        from Inr Some nt2 have b: "mergeLoop fn t2 s = mergeLoop fn t2 s1"
          by (subst mergeLoop.simps) simp
        from 1(1)[OF Some False Inr 1(2)] a b show ?thesis by simp
      qed
    qed
  qed
qed

text \<open>No step of the loop reads or writes \<^verbatim>\<open>_mergedUntil\<close>.\<close>

lemma mergedUntil_last:
  "s\<lparr>mergedUntil := m, stale := st\<rparr> = s\<lparr>stale := st, mergedUntil := m\<rparr>"
  "s\<lparr>mergedUntil := m, scoringFn := f\<rparr> = s\<lparr>scoringFn := f, mergedUntil := m\<rparr>"
  "s\<lparr>mergedUntil := m, rootPaths := r\<rparr> = s\<lparr>rootPaths := r, mergedUntil := m\<rparr>"
  "s\<lparr>mergedUntil := m, edgeQueue := q\<rparr> = s\<lparr>edgeQueue := q, mergedUntil := m\<rparr>"
  "s\<lparr>mergedUntil := m, edgeScores := es\<rparr> = s\<lparr>edgeScores := es, mergedUntil := m\<rparr>"
  by (cases s, simp)+

lemma scoreEdge_mergedUntil:
  "scoreEdge fn e (s\<lparr>mergedUntil := m\<rparr>)
     = (fst (scoreEdge fn e s), (snd (scoreEdge fn e s))\<lparr>mergedUntil := m\<rparr>)"
  by (simp add: scoreEdge_def split_def Let_def mergedUntil_last)

lemma mergeNeighborEdge_mergedUntil:
  "mergeNeighborEdge fn e a b ne (s\<lparr>mergedUntil := m\<rparr>)
     = map_sum id (\<lambda>s'. s'\<lparr>mergedUntil := m\<rparr>) (mergeNeighborEdge fn e a b ne s)"
  by (simp add: mergeNeighborEdge_def Let_def split: option.splits)

lemma forEach_mergedUntil:
  assumes "\<And>x s. body x (s\<lparr>mergedUntil := m\<rparr>) = map_sum id (\<lambda>s'. s'\<lparr>mergedUntil := m\<rparr>) (body x s)"
  shows "forEach body xs (s\<lparr>mergedUntil := m\<rparr>)
           = map_sum id (\<lambda>s'. s'\<lparr>mergedUntil := m\<rparr>) (forEach body xs s)"
proof (induction xs arbitrary: s)
  case Nil
  then show ?case by simp
next
  case (Cons x xs)
  show ?case
  proof (cases "body x s")
    case (Inl err)
    then show ?thesis by (simp add: assms)
  next
    case (Inr s1)
    with Cons.IH[of s1] show ?thesis by (simp add: assms)
  qed
qed

lemma markStale_mergedUntil:
  "markStale es (s\<lparr>mergedUntil := m\<rparr>) = (markStale es s)\<lparr>mergedUntil := m\<rparr>"
  unfolding markStale_def by (induction es arbitrary: s) (simp_all add: mergedUntil_last)

lemma markStale_regionGraph [simp]: "regionGraph (markStale es s) = regionGraph s"
  unfolding markStale_def by (induction es arbitrary: s) simp_all

lemma mergeRegions_mergedUntil:
  "mergeRegions fn e (s\<lparr>mergedUntil := m\<rparr>)
     = map_sum id (\<lambda>s'. s'\<lparr>mergedUntil := m\<rparr>) (mergeRegions fn e s)"
proof -
  let ?a = "fst (edge (regionGraph s) e)" and ?b = "snd (edge (regionGraph s) e)"
  let ?s2 = "s\<lparr>scoringFn := notifyNodeMerge fn ?b ?a (scoringFn s),
                rootPaths := (rootPaths s)(?b \<mapsto> ?a)\<rparr>"
  have "mergeRegions fn e (s\<lparr>mergedUntil := m\<rparr>)
        = forEach (mergeNeighborEdge fn e ?a ?b) (incEdges (regionGraph s) ?b)
            ((markStale (incEdges (regionGraph s) ?a) ?s2)\<lparr>mergedUntil := m\<rparr>)"
    by (simp add: mergeRegions_def Let_def markStale_mergedUntil mergedUntil_last)
  also have "\<dots> = map_sum id (\<lambda>s'. s'\<lparr>mergedUntil := m\<rparr>)
        (forEach (mergeNeighborEdge fn e ?a ?b) (incEdges (regionGraph s) ?b)
            (markStale (incEdges (regionGraph s) ?a) ?s2))"
    by (rule forEach_mergedUntil) (rule mergeNeighborEdge_mergedUntil)
  also have "\<dots> = map_sum id (\<lambda>s'. s'\<lparr>mergedUntil := m\<rparr>) (mergeRegions fn e s)"
    by (simp add: mergeRegions_def Let_def)
  finally show ?thesis .
qed

lemma loopBody_mergedUntil:
  "loopBody fn x (s\<lparr>mergedUntil := m\<rparr>)
     = map_sum id (\<lambda>s'. s'\<lparr>mergedUntil := m\<rparr>) (loopBody fn x s)"
proof -
  let ?s1 = "s\<lparr>edgeQueue := pq_pop (EdgeCompare (edgeScores s)) (edgeQueue s)\<rparr>"
  show ?thesis
    unfolding loopBody_def Let_def
    by (simp add: mergedUntil_last scoreEdge_mergedUntil mergeRegions_mergedUntil split_def)
qed

lemma mergeLoop_mergedUntil:
  "mergeLoop fn t (s\<lparr>mergedUntil := m\<rparr>)
     = map_sum id (\<lambda>s'. s'\<lparr>mergedUntil := m\<rparr>) (mergeLoop fn t s)"
proof (induction fn t s rule: mergeLoop.induct)
  case (1 fn t s)
  show ?case
  proof (cases "pq_top (EdgeCompare (edgeScores s)) (edgeQueue s)")
    case None
    then have "mergeLoop fn t s = Inr s" by (subst mergeLoop.simps) simp
    moreover from None have "mergeLoop fn t (s\<lparr>mergedUntil := m\<rparr>) = Inr (s\<lparr>mergedUntil := m\<rparr>)"
      by (subst mergeLoop.simps) simp
    ultimately show ?thesis by simp
  next
    case (Some x)
    show ?thesis
    proof (cases "t \<le> edgeScores s x")
      case True
      with Some have "mergeLoop fn t s = Inr s" by (subst mergeLoop.simps) simp
      moreover from Some True
      have "mergeLoop fn t (s\<lparr>mergedUntil := m\<rparr>) = Inr (s\<lparr>mergedUntil := m\<rparr>)"
        by (subst mergeLoop.simps) simp
      ultimately show ?thesis by simp
    next
      case False
      show ?thesis
      proof (cases "loopBody fn x s")
        case (Inl err)
        with Some False have "mergeLoop fn t s = Inl err" by (subst mergeLoop.simps) simp
        moreover from Inl Some False have "mergeLoop fn t (s\<lparr>mergedUntil := m\<rparr>) = Inl err"
          by (subst mergeLoop.simps) (simp add: loopBody_mergedUntil)
        ultimately show ?thesis by simp
      next
        case (Inr s1)
        with Some False have a: "mergeLoop fn t s = mergeLoop fn t s1"
          by (subst mergeLoop.simps) simp
        from Inr Some False
        have "mergeLoop fn t (s\<lparr>mergedUntil := m\<rparr>) = mergeLoop fn t (s1\<lparr>mergedUntil := m\<rparr>)"
          by (subst mergeLoop.simps) (simp add: loopBody_mergedUntil)
        with 1[OF Some False Inr] a show ?thesis by simp
      qed
    qed
  qed
qed

lemma mergeUntil_resume:
  assumes "t1 < t2" "0 \<le> mergedUntil s"
  shows "(case mergeUntil fn t1 s of Inl err \<Rightarrow> Inl err | Inr s1 \<Rightarrow> mergeUntil fn t2 s1)
           = mergeUntil fn t2 s"
proof (cases "t1 \<le> mergedUntil s")
  case True
  then show ?thesis by (simp add: mergeUntil_def)
next
  case False
  with assms have nt2: "\<not> t2 \<le> mergedUntil s" and t1: "t1 \<noteq> 0" by auto
  let ?s1 = "if mergedUntil s = 0 then seedScores fn s else s"
  have le: "t1 \<le> t2" using assms(1) by simp
  show ?thesis
  proof (cases "mergeLoop fn t1 ?s1")
    case (Inl err)
    with mergeLoop_resume[OF le, of fn ?s1] have "mergeLoop fn t2 ?s1 = Inl err" by simp
    with Inl False nt2 show ?thesis by (simp add: mergeUntil_def Let_def)
  next
    case (Inr s2)
    with mergeLoop_resume[OF le, of fn ?s1] have r: "mergeLoop fn t2 ?s1 = mergeLoop fn t2 s2" by simp
    have a: "mergeUntil fn t1 s = Inr (s2\<lparr>mergedUntil := t1\<rparr>)"
      using Inr False by (simp add: mergeUntil_def Let_def)
    have "mergeUntil fn t2 (s2\<lparr>mergedUntil := t1\<rparr>)
          = (case mergeLoop fn t2 (s2\<lparr>mergedUntil := t1\<rparr>) of
               Inl err \<Rightarrow> Inl err | Inr s3 \<Rightarrow> Inr (s3\<lparr>mergedUntil := t2\<rparr>))"
      using assms(1) t1 by (simp add: mergeUntil_def Let_def)
    also have "\<dots> = (case mergeLoop fn t2 s2 of
               Inl err \<Rightarrow> Inl err | Inr s3 \<Rightarrow> Inr (s3\<lparr>mergedUntil := t2\<rparr>))"
      by (cases "mergeLoop fn t2 s2") (simp_all add: mergeLoop_mergedUntil)
    also have "\<dots> = mergeUntil fn t2 s"
      using nt2 r by (simp add: mergeUntil_def Let_def)
    finally show ?thesis using a by simp
  qed
qed

text \<open>
  Claim C2. For every region graph \<open>g\<close>, every scoring function (its operations \<open>fn\<close> and its
  state \<open>f\<close>) and all thresholds \<open>t1 < t2\<close>, running \<^verbatim>\<open>mergeUntil(fn, t1)\<close> and then
  \<^verbatim>\<open>mergeUntil(fn, t2)\<close> on the freshly constructed engine gives the same outcome as
  \<^verbatim>\<open>mergeUntil(fn, t2)\<close> alone: the same final state in every field (graph, scores, stale and
  deleted flags, queue, forest, marker, state of the scoring function), or the same failed
  assertion. The loop always ends, so there is an outcome.
\<close>

theorem mergeUntil_increasing_thresholds:
  assumes "t1 < t2"
  shows "(case mergeUntil fn t1 (IterativeRegionMerging_init g f) of
            Inl err \<Rightarrow> Inl err
          | Inr s1 \<Rightarrow> mergeUntil fn t2 s1)
         = mergeUntil fn t2 (IterativeRegionMerging_init g f)"
  using assms by (intro mergeUntil_resume) (simp_all add: IterativeRegionMerging_init_def)

theorem mergeUntil_increasing_thresholds_witness:
  "(1/4 :: real) < 3/4 \<and>
   (case mergeUntil (constFn (1/2)) (1/4) (IterativeRegionMerging_init triangle ()) of
      Inl err \<Rightarrow> Inl err
    | Inr s1 \<Rightarrow> mergeUntil (constFn (1/2)) (3/4) s1)
   = mergeUntil (constFn (1/2)) (3/4) (IterativeRegionMerging_init triangle ())"
  using mergeUntil_increasing_thresholds[of "1/4" "3/4" "constFn (1/2)" triangle "()"]
  by simp

subsection \<open>Rescoring a stale edge with the histogram quantile provider\<close>

text \<open>The running sum of the scan: the count of the first \<open>k\<close> bins.\<close>

definition cum :: "Histogram \<Rightarrow> nat \<Rightarrow> int" where
  "cum h k = int (sum_list (take k h))"

definition pivotOf :: "int \<Rightarrow> Histogram \<Rightarrow> int" where
  "pivotOf Q h = (Q * hist_sum h) sdiv 100 + 1"

lemma cum_Suc: "k < length h \<Longrightarrow> cum h (Suc k) = cum h k + int (h ! k)"
  by (simp add: cum_def take_Suc_conv_app_nth)

lemma cum_bounds: "0 \<le> cum h k \<and> cum h k \<le> hist_sum h"
proof -
  have "sum_list h = sum_list (take k h) + sum_list (drop k h)"
    by (metis append_take_drop_id sum_list_append)
  then show ?thesis by (simp add: cum_def hist_sum_def)
qed

text \<open>While the total count is below \<open>2 ^ 31\<close> the running sum of the scan does not
  overflow, and the scan stops at the first bin whose cumulated count reaches the
  pivot.\<close>

lemma scanBins_spec:
  assumes "0 \<le> bin" "bin \<le> Bins" "sm = cum h (nat bin)" "int (length h) = Bins"
    and "hist_sum h < 2 ^ 31"
  shows "bin \<le> scanBins Bins h pivot sm bin \<and> scanBins Bins h pivot sm bin \<le> Bins \<and>
         (\<forall>j. bin \<le> j \<and> j < scanBins Bins h pivot sm bin \<longrightarrow> cum h (Suc (nat j)) < pivot) \<and>
         (scanBins Bins h pivot sm bin < Bins \<longrightarrow>
            pivot \<le> cum h (Suc (nat (scanBins Bins h pivot sm bin))))"
  using assms
proof (induction Bins h pivot sm bin rule: scanBins.induct)
  case (1 Bins h pivot sm bin)
  show ?case
  proof (cases "bin < Bins")
    case False
    then have "scanBins Bins h pivot sm bin = bin" by (subst scanBins.simps) simp
    with False 1(3) show ?thesis by simp
  next
    case True
    then have lt: "nat bin < length h" using 1(2,5) by auto
    have e: "sm + hist_at h bin = cum h (Suc (nat bin))"
      using 1(4) lt by (simp add: cum_Suc hist_at_def)
    have sm': "wrap32 (sm + hist_at h bin) = cum h (Suc (nat bin))"
      unfolding e using cum_bounds[of h "Suc (nat bin)"] 1(6) by (intro wrap32_id) simp_all
    show ?thesis
    proof (cases "pivot \<le> wrap32 (sm + hist_at h bin)")
      case p: True
      with True have "scanBins Bins h pivot sm bin = bin" by (subst scanBins.simps) simp
      with True p sm' show ?thesis by simp
    next
      case p: False
      with True have r: "scanBins Bins h pivot sm bin = scanBins Bins h pivot (wrap32 (sm + hist_at h bin)) (bin + 1)"
        by (subst scanBins.simps) simp
      have n: "nat (bin + 1) = Suc (nat bin)" using 1(2) by simp
      have ih: "bin + 1 \<le> scanBins Bins h pivot (wrap32 (sm + hist_at h bin)) (bin + 1) \<and>
          scanBins Bins h pivot (wrap32 (sm + hist_at h bin)) (bin + 1) \<le> Bins \<and>
          (\<forall>j. bin + 1 \<le> j \<and> j < scanBins Bins h pivot (wrap32 (sm + hist_at h bin)) (bin + 1)
               \<longrightarrow> cum h (Suc (nat j)) < pivot) \<and>
          (scanBins Bins h pivot (wrap32 (sm + hist_at h bin)) (bin + 1) < Bins \<longrightarrow>
             pivot \<le> cum h (Suc (nat (scanBins Bins h pivot (wrap32 (sm + hist_at h bin)) (bin + 1)))))"
        using 1(1)[OF True refl p] 1(2,5,6) True sm' n by simp
      have "cum h (Suc (nat j)) < pivot"
        if "bin \<le> j" "j < scanBins Bins h pivot (wrap32 (sm + hist_at h bin)) (bin + 1)" for j
      proof (cases "j = bin")
        case True
        with p sm' show ?thesis by simp
      next
        case False
        with that have "bin + 1 \<le> j" by simp
        with ih that show ?thesis by blast
      qed
      with ih show ?thesis unfolding r by auto
    qed
  qed
qed

lemma sdiv_nonneg: "0 \<le> a \<Longrightarrow> a sdiv (100 :: int) = a div 100"
  by (simp add: signed_divide_int_def sgn_if)

lemma div_add_le: "(a :: int) div 100 + b div 100 \<le> (a + b) div 100"
proof -
  have "(a + b) div 100 = a div 100 + b div 100 + (a mod 100 + b mod 100) div 100"
    by (rule div_add1_eq)
  moreover have "0 \<le> (a mod 100 + b mod 100) div 100"
    by (simp add: pos_imp_zdiv_nonneg_iff)
  ultimately show ?thesis by simp
qed

lemma hist_sum_nonneg [simp]: "0 \<le> hist_sum h"
  by (simp add: hist_sum_def)

lemma pivotOf_add:
  assumes "0 \<le> Q" "length h1 = length h2"
  shows "pivotOf Q h1 + pivotOf Q h2 \<le> pivotOf Q (hist_add h1 h2) + 1"
proof -
  have a: "0 \<le> Q * hist_sum h1" "0 \<le> Q * hist_sum h2" "0 \<le> Q * hist_sum (hist_add h1 h2)"
    using assms(1) by simp_all
  have "Q * hist_sum (hist_add h1 h2) = Q * hist_sum h1 + Q * hist_sum h2"
    using assms(2) by (simp add: hist_sum_add distrib_left)
  then show ?thesis
    unfolding pivotOf_def sdiv_nonneg[OF a(1)] sdiv_nonneg[OF a(2)] sdiv_nonneg[OF a(3)]
    using div_add_le[of "Q * hist_sum h1" "Q * hist_sum h2"] by simp
qed

lemma cum_add:
  assumes "length h1 = length h2"
  shows "cum (hist_add h1 h2) k = cum h1 k + cum h2 k"
proof -
  have "take k (map2 (+) h1 h2) = map2 (+) (take k h1) (take k h2)"
    by (simp add: take_map take_zip)
  moreover have "length (take k h1) = length (take k h2)" using assms by simp
  ultimately show ?thesis
    by (simp add: cum_def hist_add_def sum_list_map2_add)
qed

text \<open>While \<open>Q\<close> times the total count is below \<open>2 ^ 31\<close> the pivot does not overflow.\<close>

lemma pivot_no_overflow:
  assumes "0 \<le> Q" "Q * hist_sum h < 2 ^ 31"
  shows "wrap32 (wrap32 (Q * hist_sum h) sdiv 100 + 1) = pivotOf Q h"
proof -
  define x where "x = Q * hist_sum h"
  have x: "0 \<le> x" "x < 2147483648" using assms by (simp_all add: x_def)
  then have w: "wrap32 x = x" by (intro wrap32_id) simp_all
  have d: "x sdiv 100 = x div 100" using x(1) by (rule sdiv_nonneg)
  have "0 \<le> x div 100" "x div 100 + 1 < 2147483648" using x by presburger+
  then have "wrap32 (x div 100 + 1) = x div 100 + 1" by (intro wrap32_id) simp_all
  then show ?thesis by (simp add: pivotOf_def w d flip: x_def)
qed

lemma quantileBin_spec:
  assumes "0 \<le> Bins" "length h = nat Bins"
    and "0 \<le> Q" "Q * hist_sum h < 2 ^ 31" "hist_sum h < 2 ^ 31"
  shows "0 \<le> quantileBin Q Bins h \<and> quantileBin Q Bins h \<le> Bins \<and>
         (\<forall>j. 0 \<le> j \<and> j < quantileBin Q Bins h \<longrightarrow> cum h (Suc (nat j)) < pivotOf Q h) \<and>
         (quantileBin Q Bins h < Bins \<longrightarrow> pivotOf Q h \<le> cum h (Suc (nat (quantileBin Q Bins h))))"
proof -
  have "int (length h) = Bins" using assms by simp
  moreover have "(0::int) = cum h (nat 0)" by (simp add: cum_def)
  moreover have "quantileBin Q Bins h = scanBins Bins h (pivotOf Q h) 0 0"
    unfolding quantileBin_def Let_def pivot_no_overflow[OF assms(3,4)] ..
  ultimately show ?thesis
    using scanBins_spec[where bin = 0 and sm = 0 and pivot = "pivotOf Q h" and Bins = Bins and h = h]
      assms(1,5)
    by simp
qed

lemma quantileBin_merge:
  assumes "0 \<le> Q" "0 \<le> Bins" "length h1 = nat Bins" "length h2 = nat Bins"
    and "Q * hist_sum (hist_add h1 h2) < 2 ^ 31" "hist_sum (hist_add h1 h2) < 2 ^ 31"
  shows "min (quantileBin Q Bins h1) (quantileBin Q Bins h2) \<le> quantileBin Q Bins (hist_add h1 h2)"
proof (rule ccontr)
  let ?r = "quantileBin Q Bins (hist_add h1 h2)"
  assume "\<not> ?thesis"
  then have lt: "?r < quantileBin Q Bins h1" "?r < quantileBin Q Bins h2" by simp_all
  have len: "length (hist_add h1 h2) = nat Bins" using assms(3,4) by simp
  have sm: "hist_sum (hist_add h1 h2) = hist_sum h1 + hist_sum h2"
    using assms(3,4) by (simp add: hist_sum_add)
  have f1: "Q * hist_sum h1 < 2 ^ 31" "hist_sum h1 < 2 ^ 31"
  proof -
    have "Q * hist_sum h1 \<le> Q * hist_sum (hist_add h1 h2)"
      unfolding sm using assms(1) by (intro mult_left_mono) simp_all
    with assms(5) show "Q * hist_sum h1 < 2 ^ 31" by simp
    have "0 \<le> hist_sum h2" by simp
    with assms(6) show "hist_sum h1 < 2 ^ 31" unfolding sm by linarith
  qed
  have f2: "Q * hist_sum h2 < 2 ^ 31" "hist_sum h2 < 2 ^ 31"
  proof -
    have "Q * hist_sum h2 \<le> Q * hist_sum (hist_add h1 h2)"
      unfolding sm using assms(1) by (intro mult_left_mono) simp_all
    with assms(5) show "Q * hist_sum h2 < 2 ^ 31" by simp
    have "0 \<le> hist_sum h1" by simp
    with assms(6) show "hist_sum h2 < 2 ^ 31" unfolding sm by linarith
  qed
  note s1 = quantileBin_spec[OF assms(2,3,1) f1]
  note s2 = quantileBin_spec[OF assms(2,4,1) f2]
  note s = quantileBin_spec[OF assms(2) len assms(1,5,6)]
  from s have r0: "0 \<le> ?r" by simp
  from lt(1) s1 have "?r < Bins" by simp
  with s have "pivotOf Q (hist_add h1 h2) \<le> cum (hist_add h1 h2) (Suc (nat ?r))" by simp
  also have "\<dots> = cum h1 (Suc (nat ?r)) + cum h2 (Suc (nat ?r))"
    using assms(3,4) by (simp add: cum_add)
  finally have a: "pivotOf Q (hist_add h1 h2) \<le> cum h1 (Suc (nat ?r)) + cum h2 (Suc (nat ?r))" .
  from s1 r0 lt(1) have b: "cum h1 (Suc (nat ?r)) < pivotOf Q h1" by blast
  from s2 r0 lt(2) have c: "cum h2 (Suc (nat ?r)) < pivotOf Q h2" by blast
  from pivotOf_add[OF assms(1), of h1 h2] assms(3,4)
  have "pivotOf Q h1 + pivotOf Q h2 \<le> pivotOf Q (hist_add h1 h2) + 1" by simp
  with a b c show False by linarith
qed

lemma quantileBin_clear:
  assumes "0 \<le> Bins" "length h = nat Bins"
  shows "quantileBin Q Bins (clear h) = Bins"
proof -
  have "\<forall>i < length (clear h). clear h ! i = 0" by (simp add: clear_def)
  then have "scanBins Bins (clear h) 1 0 0 = Bins"
    using assms by (intro scanBins_zero) auto
  then show ?thesis by (simp add: quantileBin_def)
qed

text \<open>The provider computes without overflow while \<open>Q\<close> times the number of all samples,
  and that number itself, stay below \<open>2 ^ 31\<close>; a merge of two histograms does not increase
  the number of samples.\<close>

definition no_overflow :: "int \<Rightarrow> nat \<Rightarrow> HistogramQuantileProvider \<Rightarrow> bool" where
  "no_overflow Q n hs \<longleftrightarrow> Q * total_count n hs < 2 ^ 31 \<and> total_count n hs < 2 ^ 31"

lemma total_count_Suc: "total_count (Suc n) hs = total_count n hs + hist_sum (hs n)"
  by (simp add: total_count_def)

lemma total_count_nonneg: "0 \<le> total_count n hs"
  by (induction n) (simp_all add: total_count_Suc, simp add: total_count_def)

lemma hist_sum_le_total: "e < n \<Longrightarrow> hist_sum (hs e) \<le> total_count n hs"
proof (induction n)
  case 0
  then show ?case by simp
next
  case (Suc n)
  show ?case
  proof (cases "e = n")
    case True
    then show ?thesis using total_count_nonneg[of n hs] by (simp add: total_count_Suc)
  next
    case False
    with Suc have "hist_sum (hs e) \<le> total_count n hs" by simp
    moreover have "0 \<le> hist_sum (hs n)" by simp
    ultimately show ?thesis unfolding total_count_Suc by linarith
  qed
qed

lemma no_overflow_fits:
  assumes "no_overflow Q n hs" "0 \<le> Q" "e < n"
  shows "Q * hist_sum (hs e) < 2 ^ 31" and "hist_sum (hs e) < 2 ^ 31"
proof -
  have le: "hist_sum (hs e) \<le> total_count n hs" using assms(3) by (rule hist_sum_le_total)
  then have "Q * hist_sum (hs e) \<le> Q * total_count n hs"
    using assms(2) by (rule mult_left_mono)
  with assms(1) show "Q * hist_sum (hs e) < 2 ^ 31" by (simp add: no_overflow_def)
  from le assms(1) show "hist_sum (hs e) < 2 ^ 31" by (simp add: no_overflow_def)
qed

lemma notifyEdgeMerge_total_le:
  assumes "hists_ok Bins n hs" "from < n" "to < n"
  shows "total_count n (hqp_notifyEdgeMerge from to hs) \<le> total_count n hs"
proof -
  let ?hs1 = "hs(to := hist_add (hs to) (hs from))"
  have lf: "length (hs from) = nat Bins" and lt: "length (hs to) = nat Bins"
    using assms by (auto simp: hists_ok_nth)
  have t1: "total_count n ?hs1 = total_count n hs + hist_sum (hs from)"
    using total_count_upd[OF assms(3), of hs "hist_add (hs to) (hs from)"] lf lt
    by (simp add: hist_sum_add)
  have t2: "total_count n (?hs1(from := clear (?hs1 from)))
            = total_count n ?hs1 - hist_sum (?hs1 from) + 0"
    using total_count_upd[OF assms(2), of ?hs1 "clear (?hs1 from)"] by simp
  have "hist_sum (hs from) \<le> hist_sum (?hs1 from)"
    using lf lt by (simp add: hist_sum_add)
  with t1 t2 show ?thesis by (simp add: hqp_notifyEdgeMerge_def Let_def)
qed

lemma notifyEdgeMerge_no_overflow:
  assumes "0 \<le> Q" "hists_ok Bins n hs" "from < n" "to < n" "no_overflow Q n hs"
  shows "no_overflow Q n (hqp_notifyEdgeMerge from to hs)"
proof -
  have le: "total_count n (hqp_notifyEdgeMerge from to hs) \<le> total_count n hs"
    using assms(2-4) by (rule notifyEdgeMerge_total_le)
  then have "Q * total_count n (hqp_notifyEdgeMerge from to hs) \<le> Q * total_count n hs"
    using assms(1) by (rule mult_left_mono)
  with le assms(5) show ?thesis by (simp add: no_overflow_def)
qed

text \<open>Merging the histogram of \<open>from\<close> into the one of an edge \<open>to\<close> whose cached score is
  not greater keeps every cached score below the score the provider would now return.\<close>

definition scores_le ::
  "(int \<Rightarrow> int \<Rightarrow> real) \<Rightarrow> int \<Rightarrow> int \<Rightarrow> nat \<Rightarrow> (nat \<Rightarrow> real) \<Rightarrow> HistogramQuantileProvider \<Rightarrow> bool" where
  "scores_le undiscretize Q Bins n es hs =
     (\<forall>e < n. es e \<le> hqp_score undiscretize Q Bins hs e)"

definition mono_undiscretize :: "(int \<Rightarrow> int \<Rightarrow> real) \<Rightarrow> int \<Rightarrow> bool" where
  "mono_undiscretize undiscretize Bins =
     (\<forall>i j. i \<le> j \<longrightarrow> undiscretize i Bins \<le> undiscretize j Bins)"

lemma notifyEdgeMerge_hists_ok:
  assumes "hists_ok Bins n hs" "from < n" "to < n"
  shows "hists_ok Bins n (hqp_notifyEdgeMerge from to hs)"
  using assms by (intro hists_okI) (auto simp: hqp_notifyEdgeMerge_def Let_def hists_ok_nth)

lemma notifyEdgeMerge_scores_le:
  assumes mono: "mono_undiscretize undiscretize Bins" and Q: "0 \<le> Q" and B: "0 \<le> Bins"
    and ok: "hists_ok Bins n hs" and f: "from < n" and t: "to < n"
    and le: "es to \<le> es from"
    and inv: "scores_le undiscretize Q Bins n es hs"
    and no: "no_overflow Q n hs"
  shows "scores_le undiscretize Q Bins n es (hqp_notifyEdgeMerge from to hs)"
  unfolding scores_le_def
proof (intro allI impI)
  fix e assume e: "e < n"
  let ?hs' = "hqp_notifyEdgeMerge from to hs"
  let ?U = "\<lambda>i. undiscretize i Bins"
  have lf: "length (hs from) = nat Bins" and lt: "length (hs to) = nat Bins"
    using ok f t by (auto simp: hists_ok_nth)
  have ie: "es e \<le> ?U (quantileBin Q Bins (hs e))"
    using inv e by (simp add: scores_le_def hqp_score_def)
  have top: "?U (quantileBin Q Bins (hs e)) \<le> ?U Bins" if "e < n" for e
  proof -
    have "length (hs e) = nat Bins" using ok that by (rule hists_ok_nth)
    from quantileBin_spec[OF B this Q no_overflow_fits[OF no Q that]] mono
    show ?thesis by (simp add: mono_undiscretize_def)
  qed
  have no': "no_overflow Q n ?hs'" using Q ok f t no by (rule notifyEdgeMerge_no_overflow)
  show "es e \<le> hqp_score undiscretize Q Bins ?hs' e"
  proof (cases "e = from")
    case True
    have "length (hs e) = nat Bins" using ok e by (rule hists_ok_nth)
    then have "length (if from = to then hist_add (hs to) (hs from) else hs from) = nat Bins"
      using lf lt by simp
    then have "quantileBin Q Bins (?hs' from) = Bins"
      using quantileBin_clear[OF B, of "if from = to then hist_add (hs to) (hs from) else hs from" Q]
      by (auto simp: hqp_notifyEdgeMerge_def Let_def)
    moreover have "es e \<le> ?U Bins"
      using ie top[OF e] by simp
    ultimately show ?thesis using True by (simp add: hqp_score_def)
  next
    case nf: False
    show ?thesis
    proof (cases "e = to")
      case True
      with nf have h': "?hs' to = hist_add (hs to) (hs from)"
        by (simp add: hqp_notifyEdgeMerge_def Let_def)
      have "Q * hist_sum (?hs' to) < 2 ^ 31" "hist_sum (?hs' to) < 2 ^ 31"
        using no_overflow_fits[OF no' Q t] by simp_all
      then have "min (quantileBin Q Bins (hs to)) (quantileBin Q Bins (hs from))
            \<le> quantileBin Q Bins (hist_add (hs to) (hs from))"
        unfolding h' using Q B lt lf by (intro quantileBin_merge)
      then have "min (?U (quantileBin Q Bins (hs to))) (?U (quantileBin Q Bins (hs from)))
            \<le> ?U (quantileBin Q Bins (hist_add (hs to) (hs from)))"
        using mono unfolding mono_undiscretize_def min_def by (auto split: if_splits)
            (meson order_trans linear)+
      moreover have "es to \<le> ?U (quantileBin Q Bins (hs to))"
        using inv t by (simp add: scores_le_def hqp_score_def)
      moreover have "es to \<le> ?U (quantileBin Q Bins (hs from))"
      proof -
        have "es from \<le> ?U (quantileBin Q Bins (hs from))"
          using inv f by (simp add: scores_le_def hqp_score_def)
        with le show ?thesis by linarith
      qed
      ultimately show ?thesis using True h' by (simp add: hqp_score_def)
    next
      case False
      with nf have "?hs' e = hs e" by (simp add: hqp_notifyEdgeMerge_def Let_def)
      with ie show ?thesis by (simp add: hqp_score_def)
    qed
  qed
qed


text \<open>
  Modelled from the spec: \<^verbatim>\<open>StatisticsProvider.hpp\<close>, the base class that supplies the
  provider's \<^verbatim>\<open>notifyNodeMerge\<close>, is not among the sources; the spec gives the provider
  statistics of edges only, so a node merge leaves them unchanged. The rest is the
  provider as the scoring function of the engine: the score of an edge is \<^verbatim>\<open>operator[]\<close>,
  which leaves the histograms as they are, and \<^verbatim>\<open>notifyEdgeMerge\<close> is the provider's.
\<close>

definition hqp_fn ::
  "(int \<Rightarrow> int \<Rightarrow> real) \<Rightarrow> int \<Rightarrow> int \<Rightarrow> HistogramQuantileProvider EdgeScoringFunction" where
  "hqp_fn undiscretize Q Bins =
     \<lparr>scoreOf = (\<lambda>e hs. (hqp_score undiscretize Q Bins hs e, hs)),
      notifyNodeMerge = (\<lambda>b a hs. hs),
      notifyEdgeMerge = hqp_notifyEdgeMerge\<rparr>"

text \<open>Successive calls of \<^verbatim>\<open>mergeUntil\<close>, stopping at a failed assertion.\<close>

fun mergeUntilSeq ::
  "'f EdgeScoringFunction \<Rightarrow> real list \<Rightarrow> 'f Engine \<Rightarrow> engine_error + 'f Engine" where
  "mergeUntilSeq fn [] s = Inr s"
| "mergeUntilSeq fn (t # ts) s =
     (case mergeUntil fn t s of Inl err \<Rightarrow> Inl err | Inr s' \<Rightarrow> mergeUntilSeq fn ts s')"

text \<open>The invariant of the engine under the provider: the graph has \<open>n\<close> edges and is
  well-formed, only edges are queued, every edge has a histogram of \<open>Bins\<close> bins, and the
  samples are few enough for the provider to compute without overflow.\<close>

definition engine_base :: "int \<Rightarrow> int \<Rightarrow> nat \<Rightarrow> HistogramQuantileProvider Engine \<Rightarrow> bool" where
  "engine_base Q Bins n s =
     (length (edges (regionGraph s)) = n \<and> wf_graph (regionGraph s) \<and>
      list_all (\<lambda>e. e < n) (edgeQueue s) \<and> hists_ok Bins n (scoringFn s) \<and>
      no_overflow Q n (scoringFn s))"

lemma wf_graph_incEdges: "wf_graph g \<Longrightarrow> e \<in> set (incEdges g v) \<Longrightarrow> e < length (edges g)"
  by (auto simp: wf_graph_def incEdges_def list_all_iff split: if_splits)

lemma wf_graph_update:
  assumes "wf_graph g" "\<forall>x \<in> set es. x < length (edges g)"
  shows "wf_graph (g\<lparr>incTable := (incTable g)[v := es]\<rparr>)"
proof -
  have "set ((incTable g)[v := es]) \<subseteq> insert es (set (incTable g))"
    by (rule set_update_subset_insert)
  with assms show ?thesis by (auto simp: wf_graph_def list_all_iff)
qed

lemma removeIncEdge_wf: "wf_graph g \<Longrightarrow> wf_graph (removeIncEdge v e g)"
  unfolding removeIncEdge_def
  by (rule wf_graph_update) (auto dest: wf_graph_incEdges)

lemma addIncEdge_wf: "wf_graph g \<Longrightarrow> e < length (edges g) \<Longrightarrow> wf_graph (addIncEdge v e g)"
  unfolding addIncEdge_def
  by (rule wf_graph_update) (auto dest: wf_graph_incEdges)

lemma removeIncEdge_edges [simp]: "edges (removeIncEdge v e g) = edges g"
  by (simp add: removeIncEdge_def)

lemma addIncEdge_edges [simp]: "edges (addIncEdge v e g) = edges g"
  by (simp add: addIncEdge_def)

lemma removeEdge_edges [simp]: "edges (removeEdge g e) = edges g"
  by (simp add: removeEdge_def)

lemma removeEdge_wf: "wf_graph g \<Longrightarrow> wf_graph (removeEdge g e)"
  by (simp add: removeEdge_def removeIncEdge_wf)

lemma moveEdge_length [simp]: "length (edges (moveEdge g e u v)) = length (edges g)"
  by (simp add: moveEdge_def Let_def)

lemma wf_graph_edges_update:
  "wf_graph g \<Longrightarrow> wf_graph (g\<lparr>edges := (edges g)[e := p]\<rparr>)"
  by (simp add: wf_graph_def)

lemma moveEdge_wf:
  assumes "wf_graph g" "e < length (edges g)"
  shows "wf_graph (moveEdge g e u v)"
proof -
  let ?g1 = "removeEdge g e"
  let ?g2 = "?g1\<lparr>edges := (edges ?g1)[e := (u, v)]\<rparr>"
  have "wf_graph ?g2" using assms(1) by (intro wf_graph_edges_update removeEdge_wf)
  moreover have l: "e < length (edges ?g2)" using assms(2) by simp
  ultimately have "wf_graph (addIncEdge u e ?g2)" by (rule addIncEdge_wf)
  moreover have "e < length (edges (addIncEdge u e ?g2))" using l by simp
  ultimately have "wf_graph (addIncEdge v e (addIncEdge u e ?g2))" by (rule addIncEdge_wf)
  then show ?thesis by (simp add: moveEdge_def Let_def)
qed

lemma findEdge_mem: "findEdge g u v = Some x \<Longrightarrow> x \<in> set (incEdges g u)"
  by (auto simp: findEdge_def find_Some_iff)

lemma mergeNeighborEdge_inv:
  assumes mono: "mono_undiscretize undiscretize Bins" and Q: "0 \<le> Q" and B: "0 \<le> Bins"
    and base: "engine_base Q Bins n s"
    and le: "scores_le undiscretize Q Bins n (edgeScores s) (scoringFn s)"
    and ne: "neighborEdge < n"
  shows "mergeNeighborEdge (hqp_fn undiscretize Q Bins) e a b neighborEdge s \<noteq> Inl AssertNewScore \<and>
         (\<forall>s'. mergeNeighborEdge (hqp_fn undiscretize Q Bins) e a b neighborEdge s = Inr s' \<longrightarrow>
            engine_base Q Bins n s' \<and>
            scores_le undiscretize Q Bins n (edgeScores s') (scoringFn s'))"
proof (cases "neighborEdge = e")
  case True
  with base le show ?thesis by (simp add: mergeNeighborEdge_def)
next
  case nee: False
  let ?g = "regionGraph s"
  let ?nb = "getOpposite ?g b neighborEdge"
  from base have n: "length (edges ?g) = n" and wf: "wf_graph ?g"
    and q: "list_all (\<lambda>e. e < n) (edgeQueue s)" and ok: "hists_ok Bins n (scoringFn s)"
    and no: "no_overflow Q n (scoringFn s)"
    by (simp_all add: engine_base_def)
  show ?thesis
  proof (cases "findEdge ?g a ?nb")
    case None
    have "wf_graph (moveEdge ?g neighborEdge a ?nb)" using wf ne n by (intro moveEdge_wf) simp_all
    with None nee n q ok no le show ?thesis
      by (simp add: mergeNeighborEdge_def Let_def engine_base_def)
  next
    case (Some x)
    then have x: "x < n" using wf n by (auto dest!: findEdge_mem wf_graph_incEdges)
    show ?thesis
    proof (cases "edgeScores s x < edgeScores s neighborEdge")
      case True
      then have c: "edgeScores s x \<le> edgeScores s neighborEdge" by simp
      have "scores_le undiscretize Q Bins n (edgeScores s)
              (hqp_notifyEdgeMerge neighborEdge x (scoringFn s))"
        using mono Q B ok ne x c le no by (rule notifyEdgeMerge_scores_le)
      moreover have "hists_ok Bins n (hqp_notifyEdgeMerge neighborEdge x (scoringFn s))"
        using ok ne x by (rule notifyEdgeMerge_hists_ok)
      moreover have "no_overflow Q n (hqp_notifyEdgeMerge neighborEdge x (scoringFn s))"
        using Q ok ne x no by (rule notifyEdgeMerge_no_overflow)
      ultimately show ?thesis using Some nee True n wf q
        by (simp add: mergeNeighborEdge_def Let_def engine_base_def hqp_fn_def)
    next
      case False
      then have c: "edgeScores s neighborEdge \<le> edgeScores s x" by simp
      have "scores_le undiscretize Q Bins n (edgeScores s)
              (hqp_notifyEdgeMerge x neighborEdge (scoringFn s))"
        using mono Q B ok x ne c le no by (rule notifyEdgeMerge_scores_le)
      moreover have "hists_ok Bins n (hqp_notifyEdgeMerge x neighborEdge (scoringFn s))"
        using ok x ne by (rule notifyEdgeMerge_hists_ok)
      moreover have "no_overflow Q n (hqp_notifyEdgeMerge x neighborEdge (scoringFn s))"
        using Q ok x ne no by (rule notifyEdgeMerge_no_overflow)
      moreover have "wf_graph (moveEdge (removeEdge ?g x) neighborEdge a ?nb)"
        using wf ne n by (intro moveEdge_wf removeEdge_wf) simp_all
      ultimately show ?thesis using Some nee False n q
        by (simp add: mergeNeighborEdge_def Let_def engine_base_def hqp_fn_def)
    qed
  qed
qed

lemma forEach_inv:
  assumes "\<And>x s. x \<in> set xs \<Longrightarrow> I s \<Longrightarrow>
             body x s \<noteq> Inl AssertNewScore \<and> (\<forall>s'. body x s = Inr s' \<longrightarrow> I s')"
    and "I s"
  shows "forEach body xs s \<noteq> Inl AssertNewScore \<and> (\<forall>s'. forEach body xs s = Inr s' \<longrightarrow> I s')"
  using assms
proof (induction xs arbitrary: s)
  case Nil
  then show ?case by simp
next
  case (Cons x xs)
  have step: "body x s \<noteq> Inl AssertNewScore \<and> (\<forall>s'. body x s = Inr s' \<longrightarrow> I s')"
    using Cons.prems(1)[of x s] Cons.prems(2) by simp
  show ?case
  proof (cases "body x s")
    case (Inl err)
    with step show ?thesis by simp
  next
    case (Inr s1)
    with step have "I s1" by simp
    have "forEach body xs s1 \<noteq> Inl AssertNewScore \<and> (\<forall>s'. forEach body xs s1 = Inr s' \<longrightarrow> I s')"
    proof (rule Cons.IH)
      show "I s1" by fact
    next
      fix y s0
      assume "y \<in> set xs" "I s0"
      then show "body y s0 \<noteq> Inl AssertNewScore \<and> (\<forall>s'. body y s0 = Inr s' \<longrightarrow> I s')"
        using Cons.prems(1)[of y s0] by simp
    qed
    with Inr show ?thesis by simp
  qed
qed

lemma markStale_fields [simp]:
  "scoringFn (markStale es s) = scoringFn s"
  "edgeScores (markStale es s) = edgeScores s"
  unfolding markStale_def by (induction es arbitrary: s) simp_all

lemma mergeRegions_inv:
  assumes mono: "mono_undiscretize undiscretize Bins" and Q: "0 \<le> Q" and B: "0 \<le> Bins"
    and base: "engine_base Q Bins n s"
    and le: "scores_le undiscretize Q Bins n (edgeScores s) (scoringFn s)"
  shows "mergeRegions (hqp_fn undiscretize Q Bins) e s \<noteq> Inl AssertNewScore \<and>
         (\<forall>s'. mergeRegions (hqp_fn undiscretize Q Bins) e s = Inr s' \<longrightarrow>
            engine_base Q Bins n s' \<and>
            scores_le undiscretize Q Bins n (edgeScores s') (scoringFn s'))"
proof -
  let ?fn = "hqp_fn undiscretize Q Bins"
  let ?a = "fst (edge (regionGraph s) e)" and ?b = "snd (edge (regionGraph s) e)"
  let ?s2 = "s\<lparr>scoringFn := notifyNodeMerge ?fn ?b ?a (scoringFn s),
                rootPaths := (rootPaths s)(?b \<mapsto> ?a)\<rparr>"
  let ?s3 = "markStale (incEdges (regionGraph ?s2) ?a) ?s2"
  let ?I = "\<lambda>s. engine_base Q Bins n s \<and> scores_le undiscretize Q Bins n (edgeScores s) (scoringFn s)"
  have m: "mergeRegions ?fn e s
           = forEach (mergeNeighborEdge ?fn e ?a ?b) (incEdges (regionGraph s) ?b) ?s3"
    by (simp add: mergeRegions_def Let_def)
  have i3: "?I ?s3" using base le by (simp add: engine_base_def hqp_fn_def)
  have lt: "x < n" if "x \<in> set (incEdges (regionGraph s) ?b)" for x
    using base that by (auto simp: engine_base_def dest: wf_graph_incEdges)
  have "forEach (mergeNeighborEdge ?fn e ?a ?b) (incEdges (regionGraph s) ?b) ?s3 \<noteq> Inl AssertNewScore \<and>
        (\<forall>s'. forEach (mergeNeighborEdge ?fn e ?a ?b) (incEdges (regionGraph s) ?b) ?s3 = Inr s'
               \<longrightarrow> ?I s')"
  proof (rule forEach_inv[where I = ?I])
    show "?I ?s3" by (rule i3)
  next
    fix x s0
    assume "x \<in> set (incEdges (regionGraph s) ?b)" and "?I s0"
    then show "mergeNeighborEdge ?fn e ?a ?b x s0 \<noteq> Inl AssertNewScore \<and>
               (\<forall>s'. mergeNeighborEdge ?fn e ?a ?b x s0 = Inr s' \<longrightarrow> ?I s')"
      using mergeNeighborEdge_inv[OF mono Q B, of n s0 x e ?a ?b] lt by blast
  qed
  then show ?thesis unfolding m .
qed

lemma loopBody_inv:
  assumes mono: "mono_undiscretize undiscretize Bins" and Q: "0 \<le> Q" and B: "0 \<le> Bins"
    and base: "engine_base Q Bins n s"
    and le: "scores_le undiscretize Q Bins n (edgeScores s) (scoringFn s)"
    and top: "pq_top (EdgeCompare (edgeScores s)) (edgeQueue s) = Some x"
  shows "loopBody (hqp_fn undiscretize Q Bins) x s \<noteq> Inl AssertNewScore \<and>
         (\<forall>s'. loopBody (hqp_fn undiscretize Q Bins) x s = Inr s' \<longrightarrow>
            engine_base Q Bins n s' \<and>
            scores_le undiscretize Q Bins n (edgeScores s') (scoringFn s'))"
proof -
  let ?fn = "hqp_fn undiscretize Q Bins"
  let ?s1 = "s\<lparr>edgeQueue := pq_pop (EdgeCompare (edgeScores s)) (edgeQueue s)\<rparr>"
  have mem: "x \<in> set (edgeQueue s)" using top by (rule pq_top_mem)
  with base have x: "x < n" by (auto simp: engine_base_def list_all_iff)
  have q1: "edgeQueue ?s1 = remove1 x (edgeQueue s)" using top by (simp add: pq_pop_def)
  have "list_all (\<lambda>e. e < n) (remove1 x (edgeQueue s))"
    using base by (auto simp: engine_base_def list_all_iff dest: notin_set_remove1)
  then have b1: "engine_base Q Bins n ?s1" using base q1 by (simp add: engine_base_def)
  have l1: "scores_le undiscretize Q Bins n (edgeScores ?s1) (scoringFn ?s1)" using le by simp
  show ?thesis
  proof (cases "deleted s x")
    case True
    with b1 l1 show ?thesis by (simp add: loopBody_def Let_def)
  next
    case nd: False
    show ?thesis
    proof (cases "stale s x")
      case True
      let ?new = "hqp_score undiscretize Q Bins (scoringFn s) x"
      have ge: "edgeScores s x \<le> ?new" using le x by (simp add: scores_le_def)
      let ?s3 = "s\<lparr>edgeQueue := x # remove1 x (edgeQueue s),
                    edgeScores := (edgeScores s)(x := ?new),
                    stale := (stale s)(x := False)\<rparr>"
      have r: "loopBody ?fn x s = Inr (?s1\<lparr>scoringFn := scoringFn s,
                  edgeScores := (edgeScores s)(x := ?new),
                  edgeQueue := x # remove1 x (edgeQueue s),
                  stale := (stale s)(x := False)\<rparr>)"
        using nd True ge q1
        by (simp add: loopBody_def Let_def scoreEdge_def hqp_fn_def pq_push_def)
      have "scores_le undiscretize Q Bins n ((edgeScores s)(x := ?new)) (scoringFn s)"
        using le by (simp add: scores_le_def)
      moreover have "list_all (\<lambda>e. e < n) (x # remove1 x (edgeQueue s))"
        using x \<open>list_all (\<lambda>e. e < n) (remove1 x (edgeQueue s))\<close> by simp
      ultimately show ?thesis using r base by (simp add: engine_base_def)
    next
      case False
      with nd have "loopBody ?fn x s = mergeRegions ?fn x ?s1" by (simp add: loopBody_def Let_def)
      with mergeRegions_inv[OF mono Q B b1 l1, of x] show ?thesis by simp
    qed
  qed
qed

lemma mergeLoop_inv:
  assumes mono: "mono_undiscretize undiscretize Bins" and Q: "0 \<le> Q" and B: "0 \<le> Bins"
  shows "engine_base Q Bins n s \<Longrightarrow>
         scores_le undiscretize Q Bins n (edgeScores s) (scoringFn s) \<Longrightarrow>
         mergeLoop (hqp_fn undiscretize Q Bins) t s \<noteq> Inl AssertNewScore \<and>
         (\<forall>s'. mergeLoop (hqp_fn undiscretize Q Bins) t s = Inr s' \<longrightarrow>
            engine_base Q Bins n s' \<and>
            scores_le undiscretize Q Bins n (edgeScores s') (scoringFn s'))"
proof (induction "hqp_fn undiscretize Q Bins" t s rule: mergeLoop.induct)
  case (1 t s)
  let ?fn = "hqp_fn undiscretize Q Bins"
  show ?case
  proof (cases "pq_top (EdgeCompare (edgeScores s)) (edgeQueue s)")
    case None
    then have "mergeLoop ?fn t s = Inr s" by (subst mergeLoop.simps) simp
    with 1(2,3) show ?thesis by simp
  next
    case (Some x)
    show ?thesis
    proof (cases "t \<le> edgeScores s x")
      case True
      with Some have "mergeLoop ?fn t s = Inr s" by (subst mergeLoop.simps) simp
      with 1(2,3) show ?thesis by simp
    next
      case False
      note body = loopBody_inv[OF mono Q B 1(2,3) Some]
      show ?thesis
      proof (cases "loopBody ?fn x s")
        case (Inl err)
        with Some False have "mergeLoop ?fn t s = Inl err" by (subst mergeLoop.simps) simp
        with body Inl show ?thesis by simp
      next
        case (Inr s1)
        with Some False have a: "mergeLoop ?fn t s = mergeLoop ?fn t s1"
          by (subst mergeLoop.simps) simp
        from body Inr have "engine_base Q Bins n s1"
          "scores_le undiscretize Q Bins n (edgeScores s1) (scoringFn s1)" by simp_all
        from 1(1)[OF Some False Inr this] a show ?thesis by simp
      qed
    qed
  qed
qed


lemma seed_fold:
  assumes "list_all (\<lambda>e. e < n) es" "engine_base Q Bins n s"
  shows "engine_base Q Bins n (foldl (\<lambda>s e. snd (scoreEdge (hqp_fn undiscretize Q Bins) e s)) s es) \<and>
         scoringFn (foldl (\<lambda>s e. snd (scoreEdge (hqp_fn undiscretize Q Bins) e s)) s es) = scoringFn s \<and>
         (\<forall>e \<in> set es.
            edgeScores (foldl (\<lambda>s e. snd (scoreEdge (hqp_fn undiscretize Q Bins) e s)) s es) e
              = hqp_score undiscretize Q Bins (scoringFn s) e)"
  using assms
proof (induction es rule: rev_induct)
  case Nil
  then show ?case by simp
next
  case (snoc x xs)
  let ?f = "\<lambda>s e. snd (scoreEdge (hqp_fn undiscretize Q Bins) e s)"
  let ?s1 = "foldl ?f s xs"
  from snoc have ih: "engine_base Q Bins n ?s1" "scoringFn ?s1 = scoringFn s"
    "\<forall>e \<in> set xs. edgeScores ?s1 e = hqp_score undiscretize Q Bins (scoringFn s) e"
    and x: "x < n"
    by simp_all
  have st: "?f ?s1 x = ?s1\<lparr>scoringFn := scoringFn s,
              edgeScores := (edgeScores ?s1)(x := hqp_score undiscretize Q Bins (scoringFn s) x),
              edgeQueue := x # edgeQueue ?s1\<rparr>"
    using ih(2) by (simp add: scoreEdge_def hqp_fn_def pq_push_def)
  have "engine_base Q Bins n (?f ?s1 x)"
    unfolding st using ih(1,2) x by (simp add: engine_base_def)
  moreover have "scoringFn (?f ?s1 x) = scoringFn s" unfolding st by simp
  moreover have "\<forall>e \<in> set (xs @ [x]).
      edgeScores (?f ?s1 x) e = hqp_score undiscretize Q Bins (scoringFn s) e"
    unfolding st using ih(3) by simp
  ultimately show ?case by simp
qed

lemma seedScores_inv:
  assumes "engine_base Q Bins n s"
  shows "engine_base Q Bins n (seedScores (hqp_fn undiscretize Q Bins) s) \<and>
         scores_le undiscretize Q Bins n
           (edgeScores (seedScores (hqp_fn undiscretize Q Bins) s))
           (scoringFn (seedScores (hqp_fn undiscretize Q Bins) s))"
proof -
  from assms have n: "length (edges (regionGraph s)) = n" by (simp add: engine_base_def)
  have "list_all (\<lambda>e. e < n) [0..<n]" by (simp add: list_all_iff)
  from seed_fold[OF this assms, of undiscretize] n show ?thesis
    by (simp add: seedScores_def scores_le_def)
qed

lemma mergeUntil_inv:
  assumes mono: "mono_undiscretize undiscretize Bins" and Q: "0 \<le> Q" and B: "0 \<le> Bins"
    and base: "engine_base Q Bins n s"
    and le: "mergedUntil s \<noteq> 0 \<longrightarrow> scores_le undiscretize Q Bins n (edgeScores s) (scoringFn s)"
  shows "mergeUntil (hqp_fn undiscretize Q Bins) t s \<noteq> Inl AssertNewScore \<and>
         (\<forall>s'. mergeUntil (hqp_fn undiscretize Q Bins) t s = Inr s' \<longrightarrow>
            engine_base Q Bins n s' \<and>
            (mergedUntil s' \<noteq> 0 \<longrightarrow>
               scores_le undiscretize Q Bins n (edgeScores s') (scoringFn s')))"
proof (cases "t \<le> mergedUntil s")
  case True
  with base le show ?thesis by (simp add: mergeUntil_def)
next
  case False
  let ?fn = "hqp_fn undiscretize Q Bins"
  let ?s1 = "if mergedUntil s = 0 then seedScores ?fn s else s"
  have i1: "engine_base Q Bins n ?s1 \<and> scores_le undiscretize Q Bins n (edgeScores ?s1) (scoringFn ?s1)"
    using base le seedScores_inv[OF base, of undiscretize] by simp
  then have b1: "engine_base Q Bins n ?s1"
    and l1: "scores_le undiscretize Q Bins n (edgeScores ?s1) (scoringFn ?s1)"
    by blast+
  note loop = mergeLoop_inv[OF mono Q B b1 l1, of t]
  show ?thesis
  proof (cases "mergeLoop ?fn t ?s1")
    case (Inl err)
    with loop False show ?thesis by (simp add: mergeUntil_def Let_def)
  next
    case (Inr s2)
    with loop have "engine_base Q Bins n s2"
      "scores_le undiscretize Q Bins n (edgeScores s2) (scoringFn s2)" by simp_all
    then have "engine_base Q Bins n (s2\<lparr>mergedUntil := t\<rparr>)"
      "scores_le undiscretize Q Bins n (edgeScores (s2\<lparr>mergedUntil := t\<rparr>))
         (scoringFn (s2\<lparr>mergedUntil := t\<rparr>))"
      by (simp_all add: engine_base_def)
    with Inr False show ?thesis by (simp add: mergeUntil_def Let_def)
  qed
qed

lemma mergeUntilSeq_inv:
  assumes mono: "mono_undiscretize undiscretize Bins" and Q: "0 \<le> Q" and B: "0 \<le> Bins"
  shows "engine_base Q Bins n s \<Longrightarrow>
         (mergedUntil s \<noteq> 0 \<longrightarrow> scores_le undiscretize Q Bins n (edgeScores s) (scoringFn s)) \<Longrightarrow>
         mergeUntilSeq (hqp_fn undiscretize Q Bins) ts s \<noteq> Inl AssertNewScore"
proof (induction ts arbitrary: s)
  case Nil
  then show ?case by simp
next
  case (Cons t ts)
  note step = mergeUntil_inv[OF mono Q B Cons.prems, of t]
  show ?case
  proof (cases "mergeUntil (hqp_fn undiscretize Q Bins) t s")
    case (Inl err)
    with step show ?thesis by simp
  next
    case (Inr s1)
    with step have "engine_base Q Bins n s1"
      "mergedUntil s1 \<noteq> 0 \<longrightarrow> scores_le undiscretize Q Bins n (edgeScores s1) (scoringFn s1)"
      by simp_all
    from Cons.IH[OF this] Inr show ?thesis by simp
  qed
qed

text \<open>
  As long as the provider computes without overflow, the assertion holds. Let the engine
  be driven by the histogram quantile provider with a percentile \<open>Q \<ge> 0\<close>, \<open>Bins \<ge> 0\<close>
  bins and an \<^verbatim>\<open>undiscretize\<close> that is monotone in the bin index, on a well-formed region
  graph, every edge of which has its histogram, and let \<open>Q\<close> times the number of all
  samples, and that number, be below \<open>2 ^ 31\<close>. Then in every sequence of \<^verbatim>\<open>mergeUntil\<close>
  calls on the fresh engine the assertion \<^verbatim>\<open>newScore >= score\<close> at the rescoring of a
  stale edge does not fail: each call ends (the loop is total), and never with that
  assertion.
\<close>

lemma stale_rescoring_monotone_without_overflow:
  assumes "mono_undiscretize undiscretize Bins" "0 \<le> Q" "0 \<le> Bins"
    and "wf_graph g" "hists_ok Bins (length (edges g)) hs"
    and "no_overflow Q (length (edges g)) hs"
  shows "mergeUntilSeq (hqp_fn undiscretize Q Bins) ts (IterativeRegionMerging_init g hs)
           \<noteq> Inl AssertNewScore"
proof -
  have "engine_base Q Bins (length (edges g)) (IterativeRegionMerging_init g hs)"
    using assms(4-6) by (simp add: engine_base_def IterativeRegionMerging_init_def)
  moreover have "mergedUntil (IterativeRegionMerging_init g hs) = 0"
    by (simp add: IterativeRegionMerging_init_def)
  ultimately show ?thesis
    using mergeUntilSeq_inv[OF assms(1-3), of "length (edges g)" "IterativeRegionMerging_init g hs" ts]
    by simp
qed

text \<open>The triangle with one affinity per edge: \<open>0.1\<close> on edge \<open>0\<close>, \<open>0.6\<close> on edge \<open>1\<close>,
  \<open>0.9\<close> on edge \<open>2\<close>, in histograms of four bins.\<close>

definition triangleHists :: HistogramQuantileProvider where
  "triangleHists = (\<lambda>e. if e = 0 then [1, 0, 0, 0] else if e = 1 then [0, 0, 1, 0]
                         else if e = 2 then [0, 0, 0, 1] else [0, 0, 0, 0])"

lemma mono_undiscretize_spec: "0 < Bins \<Longrightarrow> mono_undiscretize undiscretize_spec Bins"
  by (simp add: mono_undiscretize_def undiscretize_spec_def divide_right_mono)

lemma stale_rescoring_monotone_example:
  "mergeUntilSeq (hqp_fn undiscretize_spec 50 4) [1/2, 1]
     (IterativeRegionMerging_init triangle triangleHists) \<noteq> Inl AssertNewScore"
proof -
  have "no_overflow 50 (length (edges triangle)) triangleHists"
    by (simp add: no_overflow_def total_count_def triangle_def triangleHists_def hist_sum_def)
  then show ?thesis
    using stale_rescoring_monotone_without_overflow[of undiscretize_spec 4 50 triangle
        triangleHists "[1/2, 1]"]
    by (simp add: mono_undiscretize_spec wf_graph_def triangle_def hists_ok_def triangleHists_def)
qed

text \<open>
  A run on the triangle, percentile \<open>50\<close>: the seed scores are \<open>1/8\<close>, \<open>5/8\<close>, \<open>7/8\<close>. The
  call with threshold \<open>1/2\<close> merges edge \<open>0\<close> (region \<open>1\<close> into \<open>0\<close>); edges \<open>1\<close> and \<open>2\<close>
  are now parallel, edge \<open>1\<close> is cheaper, survives and takes the histogram of edge \<open>2\<close>. The
  call with threshold \<open>1\<close> pops the stale edge \<open>1\<close>, rescores it from \<open>5/8\<close> to \<open>7/8\<close>, pops
  it again and merges region \<open>2\<close> into \<open>0\<close>, and discards the deleted edge \<open>2\<close>.
\<close>

lemmas run_simps = mergeUntil_def seedScores_def scoreEdge_def pq_push_def pq_pop_def
  mergeLoop.simps loopBody_def mergeRegions_def mergeNeighborEdge_def markStale_def
  IterativeRegionMerging_init_def hqp_fn_def hqp_score_def quantileBin_def scanBins.simps
  hist_sum_def hist_at_def hqp_notifyEdgeMerge_def hist_add_def clear_def
  undiscretize_spec_def EdgeCompare_def Let_def graph_simps
  signed_divide_int_def wrap32_def

lemma triangle_run:
  "map_sum id (\<lambda>s. (rootPaths s 1, rootPaths s 2, edgeScores s 1, deleted s 2, mergedUntil s))
     (mergeUntilSeq (hqp_fn undiscretize_spec 50 4) [1/2, 1]
        (IterativeRegionMerging_init triangle triangleHists))
   = Inr (Some 0, Some 0, 7/8, True, 1)"
  by (simp add: run_simps triangleHists_def)

text \<open>
  The triangle with one sample on edge \<open>0\<close> in the first of four bins and eleven million
  samples on each of the edges \<open>1\<close> and \<open>2\<close>, all in the last bin.
\<close>

definition heavyHists :: HistogramQuantileProvider where
  "heavyHists = (\<lambda>e. if e = 0 then [1, 0, 0, 0] else if e = 1 \<or> e = 2 then [0, 0, 0, 11000000]
                      else [0, 0, 0, 0])"

text \<open>
  Claim C4: when a stale edge is rescored under the histogram quantile provider, its new
  score is at least its cached score, so that the assertion \<^verbatim>\<open>newScore >= score\<close> fails
  in no sequence of \<^verbatim>\<open>mergeUntil\<close> calls. The code does not keep this once the product
  \<^verbatim>\<open>Q*_histograms[e].sum()\<close> overflows. On the triangle above with percentile \<open>Q = 99\<close> the
  seed scores are \<open>1/8\<close>, \<open>7/8\<close>, \<open>7/8\<close>. The call \<^verbatim>\<open>mergeUntil(1)\<close> merges edge \<open>0\<close>, which
  makes the edges \<open>1\<close> and \<open>2\<close> parallel; their cached scores are equal, so edge \<open>1\<close>
  survives, stale, with cached score \<open>7/8\<close> and the \<open>22000000\<close> samples of both edges. At
  its rescoring the product \<open>99 * 22000000\<close> exceeds \<open>2 ^ 31 - 1\<close>; the wrapped product is
  negative, so is the pivot, the scan stops in the first bin and the new score is \<open>1/8\<close>:
  the assertion \<^verbatim>\<open>newScore >= score\<close> fails.
\<close>

theorem stale_rescoring_assertion_fails:
  "mergeUntilSeq (hqp_fn undiscretize_spec 99 4) [1]
     (IterativeRegionMerging_init triangle heavyHists) = Inl AssertNewScore"
  by (simp add: run_simps heavyHists_def)

end
